theory Spec2Isabelle
  imports Main
begin

section \<open>The Listener Registry of \<open>SyncService\<close>\<close>

text \<open>
  The class \<open>SyncService\<close> (the sync service module, \<^verbatim>\<open>src/unnamed/part_001\<close>;
  the line numbers below are its lines) keeps
  \<^verbatim>\<open>listeners: Map<string, Set<() => void>>\<close>. A callback is a
  JavaScript function object, compared by reference: the model names it by a number.
  What a callback does when it is called is given by a table \<open>P\<close> from callbacks to
  a list of actions: subscribe, call a revocation handle, throw. A callback that
  calls \<^verbatim>\<open>start\<close>, \<^verbatim>\<open>stop\<close>, \<^verbatim>\<open>notifyUpdate\<close> or \<^verbatim>\<open>forceSync\<close> from inside a
  dispatch has no table; every statement below about what a dispatch invokes is about
  callbacks that have one.

  A \<^verbatim>\<open>Set\<close> is an object: the map holds a reference to it, and a running
  \<^verbatim>\<open>forEach\<close> holds another. The model therefore has a store of Set objects
  (\<open>heap\<close>, from addresses to Set data) and the map sends a key to an address.
  Set data is the entry list of ECMAScript: \<^verbatim>\<open>add\<close> appends an entry unless the
  value is present, \<^verbatim>\<open>delete\<close> replaces the entry by the \<open>empty\<close> marker
  (\<open>None\<close>) without moving the others, \<^verbatim>\<open>size\<close> counts the entries that are not
  empty.
\<close>

type_synonym callback = nat
type_synonym set_data = "callback option list"

definition sadd :: "callback \<Rightarrow> set_data \<Rightarrow> set_data" where
  "sadd cb es = (if Some cb \<in> set es then es else es @ [Some cb])"

definition sdelete :: "callback \<Rightarrow> set_data \<Rightarrow> set_data" where
  "sdelete cb es = map (\<lambda>e. if e = Some cb then None else e) es"

definition ssize :: "set_data \<Rightarrow> nat" where
  "ssize es = length (filter (\<lambda>e. e \<noteq> None) es)"

text \<open>The values of a Set in insertion order, as an iteration that nothing disturbs visits them.\<close>

fun live :: "set_data \<Rightarrow> callback list" where
  "live [] = []"
| "live (None # es) = live es"
| "live (Some cb # es) = cb # live es"

record registry =
  listeners :: "string \<rightharpoonup> nat"
  heap :: "nat \<Rightarrow> set_data"
  nextAddr :: nat
  calls :: "callback list"

text \<open>
  \<open>calls\<close> is not a field of the class: it records, in order, every invocation of a
  callback, so that theorems can speak about which callbacks a dispatch invoked.
\<close>

definition empty_registry :: registry where
  "empty_registry = \<lparr>listeners = Map.empty, heap = (\<lambda>_. []), nextAddr = 0, calls = []\<rparr>"

text \<open>
  \<^verbatim>\<open>subscribe(key, callback)\<close>, lines 123-128: a missing key gets a new Set, then the
  callback is added to the Set under the key.
\<close>

definition subscribe :: "string \<Rightarrow> callback \<Rightarrow> registry \<Rightarrow> registry" where
  "subscribe k cb r =
     (case listeners r k of
        None \<Rightarrow> r\<lparr>listeners := (listeners r)(k \<mapsto> nextAddr r),
                   heap := (heap r)(nextAddr r := sadd cb []),
                   nextAddr := Suc (nextAddr r)\<rparr>
      | Some a \<Rightarrow> r\<lparr>heap := (heap r)(a := sadd cb (heap r a))\<rparr>)"

text \<open>
  The closure that \<^verbatim>\<open>subscribe\<close> returns, lines 129-137. It captures \<open>key\<close> and
  \<open>callback\<close> only, and looks the Set up again at every call.
\<close>

definition revoke :: "string \<Rightarrow> callback \<Rightarrow> registry \<Rightarrow> registry" where
  "revoke k cb r =
     (case listeners r k of
        None \<Rightarrow> r
      | Some a \<Rightarrow>
          (let r1 = r\<lparr>heap := (heap r)(a := sdelete cb (heap r a))\<rparr>
           in if ssize (heap r1 a) = 0
              then r1\<lparr>listeners := (listeners r1)(k := None)\<rparr>
              else r1))"

text \<open>The callbacks a key has at the moment: the values of its Set, or none without a Set.\<close>

definition members :: "registry \<Rightarrow> string \<Rightarrow> callback list" where
  "members r k = (case listeners r k of None \<Rightarrow> [] | Some a \<Rightarrow> live (heap r a))"

subsection \<open>Callbacks and dispatch\<close>

datatype action = Subscribe string callback | Revoke string callback | Throw

text \<open>
  A call returns or throws. Nothing between \<^verbatim>\<open>callback()\<close> and the host catches, so
  a throw leaves \<^verbatim>\<open>forEach\<close>, \<^verbatim>\<open>notifyListeners\<close> and \<^verbatim>\<open>handleSyncMessage\<close> with
  the state as the throw found it.
\<close>

datatype 'a completion = Normal 'a | Thrown 'a

fun state_of :: "'a completion \<Rightarrow> 'a" where
  "state_of (Normal x) = x"
| "state_of (Thrown x) = x"

fun perform_all :: "action list \<Rightarrow> registry \<Rightarrow> registry completion" where
  "perform_all [] r = Normal r"
| "perform_all (Subscribe k cb # xs) r = perform_all xs (subscribe k cb r)"
| "perform_all (Revoke k cb # xs) r = perform_all xs (revoke k cb r)"
| "perform_all (Throw # xs) r = Thrown r"

definition invoke ::
  "(callback \<Rightarrow> action list) \<Rightarrow> callback \<Rightarrow> registry \<Rightarrow> registry completion" where
  "invoke P cb r = perform_all (P cb) (r\<lparr>calls := calls r @ [cb]\<rparr>)"

text \<open>
  \<^verbatim>\<open>keyListeners.forEach(callback => callback())\<close>. \<^verbatim>\<open>Set.prototype.forEach\<close> walks the
  entry list of the Set object by index, reads the number of entries again after every
  call, and skips empty entries: it sees entries appended during the walk and does not
  call a value deleted before its turn. A callback that deletes and adds itself again
  makes the walk endless, so the result is an option and \<open>None\<close> is "does not return".
  A callback that throws ends the walk at once.
\<close>

partial_function (option) forEach ::
  "(callback \<Rightarrow> action list) \<Rightarrow> nat \<Rightarrow> nat \<Rightarrow> registry \<Rightarrow> registry completion option" where
  "forEach P a i r =
     (if i < length (heap r a)
      then (case heap r a ! i of
              None \<Rightarrow> forEach P a (Suc i) r
            | Some cb \<Rightarrow>
                (case invoke P cb r of
                   Normal r1 \<Rightarrow> forEach P a (Suc i) r1
                 | Thrown r1 \<Rightarrow> Some (Thrown r1)))
      else Some (Normal r))"

text \<open>
  \<^verbatim>\<open>notifyListeners(key)\<close>, lines 98-108. The wildcard Set is looked up after the pass
  over the key's Set has finished, and not at all when that pass threw.
\<close>

definition notifyListeners ::
  "(callback \<Rightarrow> action list) \<Rightarrow> string \<Rightarrow> registry \<Rightarrow> registry completion option" where
  "notifyListeners P k r =
     (case (case listeners r k of None \<Rightarrow> Some (Normal r) | Some a \<Rightarrow> forEach P a 0 r) of
        None \<Rightarrow> None
      | Some (Thrown r1) \<Rightarrow> Some (Thrown r1)
      | Some (Normal r1) \<Rightarrow>
          (case listeners r1 ''*'' of
             None \<Rightarrow> Some (Normal r1)
           | Some g \<Rightarrow> if k \<noteq> ''*'' then forEach P g 0 r1 else Some (Normal r1)))"

section \<open>The transport\<close>

datatype SyncEventType = StorageUpdate | DataRefresh | ForceSync

record SyncMessage =
  msg_type :: SyncEventType
  key :: "string option"
  timestamp :: int

text \<open>
  The \<open>detail\<close> of a \<^verbatim>\<open>CustomEvent\<close> that reaches the same-context listener: the
  transport's own events carry a full message, other code of the page may dispatch a
  detail with a key only, or none.
\<close>

record EventDetail =
  d_type :: "SyncEventType option"
  d_key :: "string option"
  d_timestamp :: int

datatype window_event =
    StorageUpdateEvent SyncMessage
  | SyncTimeUpdateEvent int

text \<open>What the host gives \<^verbatim>\<open>new BroadcastChannel(...)\<close>: no such class, a throwing constructor, or a channel.\<close>

datatype channel_env = ChannelUndefined | ChannelThrows | ChannelOk

text \<open>
  The state has the fields of the class (\<open>channel\<close> to \<open>isStarted\<close>, with the
  \<open>listeners\<close> map inside \<open>registry\<close>) and what the class does to its host: the
  listeners installed on \<^verbatim>\<open>window\<close> for the two event types, the running intervals,
  the open channels, the messages posted, the events dispatched on \<^verbatim>\<open>window\<close>, the
  console, how many times \<^verbatim>\<open>Date.now()\<close> was read, and how many exceptions of its
  listeners the host has reported. The clock is a function \<open>clk\<close> from the number of
  the reading to the value read.
\<close>

record transport =
  channel :: "nat option"
  registry :: registry
  refreshInterval :: "nat option"
  lastSyncTime :: int
  storageListener :: "nat option"
  customEventListener :: "nat option"
  isStarted :: bool
  windowStorage :: "nat list"
  windowCustom :: "nat list"
  timers :: "nat list"
  openChannels :: "nat list"
  nextId :: nat
  posted :: "SyncMessage list"
  dispatched :: "window_event list"
  console :: "string list"
  reads :: nat
  uncaught :: nat

text \<open>Field initialisers of the class, line 15-21: \<open>lastSyncTime\<close> is the first clock reading.\<close>

definition init :: "(nat \<Rightarrow> int) \<Rightarrow> transport" where
  "init clk =
     \<lparr>channel = None, registry = empty_registry, refreshInterval = None,
      lastSyncTime = clk 0, storageListener = None, customEventListener = None,
      isStarted = False, windowStorage = [], windowCustom = [], timers = [],
      openChannels = [], nextId = 0, posted = [], dispatched = [], console = [],
      reads = 1, uncaught = 0\<rparr>"

definition on_registry ::
  "(registry \<Rightarrow> registry completion option) \<Rightarrow> transport \<Rightarrow> transport completion option" where
  "on_registry f s =
     (case f (registry s) of
        None \<Rightarrow> None
      | Some (Normal r) \<Rightarrow> Some (Normal (s\<lparr>registry := r\<rparr>))
      | Some (Thrown r) \<Rightarrow> Some (Thrown (s\<lparr>registry := r\<rparr>)))"

text \<open>\<^verbatim>\<open>updateSyncTime()\<close>, lines 110-115.\<close>

definition updateSyncTime :: "(nat \<Rightarrow> int) \<Rightarrow> transport \<Rightarrow> transport" where
  "updateSyncTime clk s =
     s\<lparr>lastSyncTime := clk (reads s),
       reads := Suc (reads s),
       dispatched := dispatched s @ [SyncTimeUpdateEvent (clk (reads s))]\<rparr>"

definition getLastSyncTime :: "transport \<Rightarrow> int" where
  "getLastSyncTime s = lastSyncTime s"

text \<open>
  \<^verbatim>\<open>handleSyncMessage(message)\<close>, lines 76-96. \<^verbatim>\<open>if (message.key)\<close> is JavaScript
  truthiness: a missing key and the empty string both take the else branch.
\<close>

definition handleSyncMessage ::
  "(callback \<Rightarrow> action list) \<Rightarrow> (nat \<Rightarrow> int) \<Rightarrow> SyncMessage \<Rightarrow> transport \<Rightarrow>
     transport completion option" where
  "handleSyncMessage P clk m s =
     (let s1 = updateSyncTime clk s in
      case msg_type m of
        StorageUpdate \<Rightarrow>
          (case key m of
             None \<Rightarrow> Some (Normal s1)
           | Some k \<Rightarrow>
               if k \<noteq> [] then on_registry (notifyListeners P k) s1 else Some (Normal s1))
      | DataRefresh \<Rightarrow> on_registry (notifyListeners P ''*'') s1
      | ForceSync \<Rightarrow>
          (case key m of
             None \<Rightarrow> on_registry (notifyListeners P ''*'') s1
           | Some k \<Rightarrow>
               if k \<noteq> [] then on_registry (notifyListeners P k) s1
               else on_registry (notifyListeners P ''*'') s1))"

text \<open>
  The two listeners that \<^verbatim>\<open>setupStorageListener\<close> creates, lines 55-70. When
  \<^verbatim>\<open>notifyListeners\<close> throws, the \<^verbatim>\<open>updateSyncTime\<close> after it does not run.
\<close>

definition storageListenerBody ::
  "(callback \<Rightarrow> action list) \<Rightarrow> (nat \<Rightarrow> int) \<Rightarrow> string option \<Rightarrow> transport \<Rightarrow>
     transport completion option" where
  "storageListenerBody P clk ek s =
     (case ek of
        None \<Rightarrow> Some (Normal s)
      | Some k \<Rightarrow>
          if k \<noteq> []
          then (case on_registry (notifyListeners P k) s of
                  None \<Rightarrow> None
                | Some (Thrown s1) \<Rightarrow> Some (Thrown s1)
                | Some (Normal s1) \<Rightarrow> Some (Normal (updateSyncTime clk s1)))
          else Some (Normal s))"

definition customEventListenerBody ::
  "(callback \<Rightarrow> action list) \<Rightarrow> (nat \<Rightarrow> int) \<Rightarrow> EventDetail option \<Rightarrow> transport \<Rightarrow>
     transport completion option" where
  "customEventListenerBody P clk detail s =
     (case detail of
        None \<Rightarrow> Some (Normal s)
      | Some d \<Rightarrow>
          (case d_type d of
             Some t \<Rightarrow>
               handleSyncMessage P clk
                 \<lparr>msg_type = t, key = d_key d, timestamp = d_timestamp d\<rparr> s
           | None \<Rightarrow>
               (case d_key d of
                  None \<Rightarrow> Some (Normal s)
                | Some k \<Rightarrow>
                    if k \<noteq> []
                    then (case on_registry (notifyListeners P k) s of
                            None \<Rightarrow> None
                          | Some (Thrown s1) \<Rightarrow> Some (Thrown s1)
                          | Some (Normal s1) \<Rightarrow> Some (Normal (updateSyncTime clk s1)))
                    else Some (Normal s))))"

text \<open>
  The host calls a listener or an event handler and reports what it throws: the
  exception does not reach \<^verbatim>\<open>dispatchEvent\<close> or the next listener.
\<close>

definition host_call ::
  "(transport \<Rightarrow> transport completion option) \<Rightarrow> transport \<Rightarrow> transport option" where
  "host_call f s =
     (case f s of
        None \<Rightarrow> None
      | Some (Normal s1) \<Rightarrow> Some s1
      | Some (Thrown s1) \<Rightarrow> Some (s1\<lparr>uncaught := Suc (uncaught s1)\<rparr>))"

text \<open>
  The host calls every listener installed for an event type, and every running
  interval's handler at a tick, one after the other. The argument \<open>f\<close> is the body
  that the installed closures of this transport share.
\<close>

fun each :: "(transport \<Rightarrow> transport option) \<Rightarrow> nat list \<Rightarrow> transport \<Rightarrow> transport option" where
  "each f [] s = Some s"
| "each f (l # ls) s = (case f s of None \<Rightarrow> None | Some s1 \<Rightarrow> each f ls s1)"

definition detail_of :: "SyncMessage \<Rightarrow> EventDetail" where
  "detail_of m = \<lparr>d_type = Some (msg_type m), d_key = key m, d_timestamp = timestamp m\<rparr>"

text \<open>
  \<^verbatim>\<open>broadcast(message)\<close>, lines 140-160. \<open>postOk\<close> says whether \<^verbatim>\<open>postMessage\<close>
  returns or throws; a throw is caught and logged.
\<close>

definition broadcast ::
  "(callback \<Rightarrow> action list) \<Rightarrow> (nat \<Rightarrow> int) \<Rightarrow> bool \<Rightarrow> SyncEventType \<Rightarrow> string option \<Rightarrow>
     transport \<Rightarrow> transport option" where
  "broadcast P clk postOk t k s =
     (let fullMessage = \<lparr>msg_type = t, key = k, timestamp = clk (reads s)\<rparr>;
          s0 = s\<lparr>reads := Suc (reads s)\<rparr>;
          s1 = (case channel s0 of
                  None \<Rightarrow> s0
                | Some c \<Rightarrow>
                    if postOk then s0\<lparr>posted := posted s0 @ [fullMessage]\<rparr>
                    else s0\<lparr>console := console s0 @ [''Failed to broadcast message'']\<rparr>);
          s2 = s1\<lparr>dispatched := dispatched s1 @ [StorageUpdateEvent fullMessage]\<rparr>
      in case each (host_call (customEventListenerBody P clk (Some (detail_of fullMessage))))
                (windowCustom s2) s2 of
           None \<Rightarrow> None
         | Some s3 \<Rightarrow> Some (updateSyncTime clk s3))"

definition notifyUpdate ::
  "(callback \<Rightarrow> action list) \<Rightarrow> (nat \<Rightarrow> int) \<Rightarrow> bool \<Rightarrow> string \<Rightarrow> transport \<Rightarrow> transport option" where
  "notifyUpdate P clk postOk k s = broadcast P clk postOk StorageUpdate (Some k) s"

definition forceSync ::
  "(callback \<Rightarrow> action list) \<Rightarrow> (nat \<Rightarrow> int) \<Rightarrow> bool \<Rightarrow> string option \<Rightarrow> transport \<Rightarrow> transport option" where
  "forceSync P clk postOk k s = broadcast P clk postOk ForceSync k s"

text \<open>\<^verbatim>\<open>start()\<close> and its three helpers, lines 26-35, 41-52, 54-74, 117-121.\<close>

definition initializeBroadcastChannel :: "channel_env \<Rightarrow> transport \<Rightarrow> transport" where
  "initializeBroadcastChannel env s =
     (case env of
        ChannelUndefined \<Rightarrow> s
      | ChannelThrows \<Rightarrow>
          s\<lparr>console := console s @
               [''BroadcastChannel not available, falling back to storage events only'']\<rparr>
      | ChannelOk \<Rightarrow>
          s\<lparr>channel := Some (nextId s),
            openChannels := openChannels s @ [nextId s],
            nextId := Suc (nextId s)\<rparr>)"

definition setupStorageListener :: "transport \<Rightarrow> transport" where
  "setupStorageListener s =
     s\<lparr>storageListener := Some (nextId s),
       customEventListener := Some (Suc (nextId s)),
       windowStorage := windowStorage s @ [nextId s],
       windowCustom := windowCustom s @ [Suc (nextId s)],
       nextId := Suc (Suc (nextId s))\<rparr>"

definition startAutoRefresh :: "transport \<Rightarrow> transport" where
  "startAutoRefresh s =
     s\<lparr>refreshInterval := Some (nextId s),
       timers := timers s @ [nextId s],
       nextId := Suc (nextId s)\<rparr>"

definition start :: "channel_env \<Rightarrow> transport \<Rightarrow> transport" where
  "start env s =
     (if isStarted s then s\<lparr>console := console s @ [''SyncService already started'']\<rparr>
      else startAutoRefresh
             (setupStorageListener
               (initializeBroadcastChannel env (s\<lparr>isStarted := True\<rparr>))))"

text \<open>\<^verbatim>\<open>destroy()\<close>, lines 174-201, which is all that \<^verbatim>\<open>stop()\<close> calls.\<close>

definition destroy :: "transport \<Rightarrow> transport" where
  "destroy s =
     (if \<not> isStarted s then s
      else
        let s1 = (case refreshInterval s of
                    None \<Rightarrow> s
                  | Some t \<Rightarrow> s\<lparr>timers := removeAll t (timers s), refreshInterval := None\<rparr>);
            s2 = (case channel s1 of
                    None \<Rightarrow> s1
                  | Some c \<Rightarrow>
                      s1\<lparr>openChannels := removeAll c (openChannels s1), channel := None\<rparr>);
            s3 = (case storageListener s2 of
                    None \<Rightarrow> s2
                  | Some l \<Rightarrow>
                      s2\<lparr>windowStorage := removeAll l (windowStorage s2),
                         storageListener := None\<rparr>);
            s4 = (case customEventListener s3 of
                    None \<Rightarrow> s3
                  | Some l \<Rightarrow>
                      s3\<lparr>windowCustom := removeAll l (windowCustom s3),
                         customEventListener := None\<rparr>)
        in s4\<lparr>registry := (registry s4)\<lparr>listeners := Map.empty\<rparr>, isStarted := False\<rparr>)"

definition stop :: "transport \<Rightarrow> transport" where
  "stop s = destroy s"

text \<open>
  What can happen to one transport: the six operations of \<open>ISyncTransport\<close> (a
  revocation handle is called by the key and callback it captured), and the host's
  events: a tick of the interval timers, a message arriving on the channel, a
  \<^verbatim>\<open>storage\<close> event and a \<^verbatim>\<open>storage-update\<close> event dispatched by other code.
\<close>

datatype operation =
    OpStart channel_env
  | OpStop
  | OpSubscribe string callback
  | OpRevoke string callback
  | OpNotifyUpdate bool string
  | OpForceSync bool "string option"
  | OpTick bool
  | OpChannelMessage SyncMessage
  | OpStorageEvent "string option"
  | OpCustomEvent "EventDetail option"

fun step ::
  "(callback \<Rightarrow> action list) \<Rightarrow> (nat \<Rightarrow> int) \<Rightarrow> operation \<Rightarrow> transport \<Rightarrow> transport option" where
  "step P clk (OpStart env) s = Some (start env s)"
| "step P clk OpStop s = Some (stop s)"
| "step P clk (OpSubscribe k cb) s = Some (s\<lparr>registry := subscribe k cb (registry s)\<rparr>)"
| "step P clk (OpRevoke k cb) s = Some (s\<lparr>registry := revoke k cb (registry s)\<rparr>)"
| "step P clk (OpNotifyUpdate postOk k) s = notifyUpdate P clk postOk k s"
| "step P clk (OpForceSync postOk k) s = forceSync P clk postOk k s"
| "step P clk (OpTick postOk) s = each (broadcast P clk postOk DataRefresh None) (timers s) s"
| "step P clk (OpChannelMessage m) s =
     (case channel s of None \<Rightarrow> Some s | Some c \<Rightarrow> host_call (handleSyncMessage P clk m) s)"
| "step P clk (OpStorageEvent ek) s =
     each (host_call (storageListenerBody P clk ek)) (windowStorage s) s"
| "step P clk (OpCustomEvent d) s =
     each (host_call (customEventListenerBody P clk d)) (windowCustom s) s"

fun run ::
  "(callback \<Rightarrow> action list) \<Rightarrow> (nat \<Rightarrow> int) \<Rightarrow> operation list \<Rightarrow> transport \<Rightarrow> transport option" where
  "run P clk [] s = Some s"
| "run P clk (x # xs) s = (case step P clk x s of None \<Rightarrow> None | Some s1 \<Rightarrow> run P clk xs s1)"

section \<open>The data-bound accessor \<open>useSyncedData\<close>\<close>

text \<open>
  The hook of \<^verbatim>\<open>src/hooks/useSyncedData.ts\<close> keeps \<open>data\<close>, \<open>loading\<close> and
  \<open>trigger\<close> in component state. Every run of
  its effect makes a new closure with its own \<open>isMounted\<close> flag and with the value of
  \<open>data\<close> of the render it belongs to; the model keeps these closures in a list and
  names one by its index. \<open>inflight\<close> lists the closures that have a fetch awaiting
  its result, \<open>errors\<close> is what \<^verbatim>\<open>console.error\<close> received. A value of type
  \<^verbatim>\<open>T | null\<close> is an option with \<open>None\<close> for \<^verbatim>\<open>null\<close>; a fetch may resolve to
  \<^verbatim>\<open>null\<close> when \<^verbatim>\<open>T\<close> admits it.
\<close>

datatype 'a outcome = Resolved "'a option" | Rejected string

record 'a effect_closure =
  isMounted :: bool
  closure_data :: "'a option"

record 'a synced =
  data :: "'a option"
  loading :: bool
  trigger :: nat
  closures :: "'a effect_closure list"
  inflight :: "nat list"
  errors :: "string list"

definition useSyncedData_init :: "'a synced" where
  "useSyncedData_init =
     \<lparr>data = None, loading = True, trigger = 0, closures = [], inflight = [], errors = []\<rparr>"

text \<open>
  \<^verbatim>\<open>doFetch\<close> up to its \<^verbatim>\<open>await\<close>, lines 31-36: the guard, the loading flag when the
  closure saw no data, and the call of the fetcher.
\<close>

definition doFetch_call :: "nat \<Rightarrow> 'a synced \<Rightarrow> 'a synced" where
  "doFetch_call i s =
     (if i < length (closures s)
      then (if \<not> isMounted (closures s ! i) then s
            else (let s1 = (if closure_data (closures s ! i) = None
                            then s\<lparr>loading := True\<rparr> else s)
                  in s1\<lparr>inflight := inflight s1 @ [i]\<rparr>))
      else s)"

text \<open>
  \<^verbatim>\<open>doFetch\<close> after the \<^verbatim>\<open>await\<close>, lines 36-48, as try, catch and finally: the try
  part throws what a rejected fetch gives, the catch part takes every throw, the
  finally part runs on both ways out and keeps the way. \<open>Inl\<close> is a throw that leaves
  \<^verbatim>\<open>doFetch\<close>.
\<close>

definition try_part :: "nat \<Rightarrow> 'a outcome \<Rightarrow> 'a synced \<Rightarrow> string + 'a synced" where
  "try_part i x s =
     (case x of
        Rejected e \<Rightarrow> Inl e
      | Resolved result \<Rightarrow>
          Inr (if isMounted (closures s ! i) then s\<lparr>data := result\<rparr> else s))"

definition catch_part :: "nat \<Rightarrow> 'a synced \<Rightarrow> string + 'a synced \<Rightarrow> string + 'a synced" where
  "catch_part i s x =
     (case x of
        Inl e \<Rightarrow>
          Inr (if isMounted (closures s ! i)
               then s\<lparr>errors := errors s @ [''Failed to fetch data in useSyncedData'' @ e]\<rparr>
               else s)
      | Inr s1 \<Rightarrow> Inr s1)"

definition finally_part :: "nat \<Rightarrow> string + 'a synced \<Rightarrow> string + 'a synced" where
  "finally_part i x =
     (case x of
        Inl e \<Rightarrow> Inl e
      | Inr s \<Rightarrow> Inr (if isMounted (closures s ! i) then s\<lparr>loading := False\<rparr> else s))"

definition doFetch_settle :: "nat \<Rightarrow> 'a outcome \<Rightarrow> 'a synced \<Rightarrow> string + 'a synced" where
  "doFetch_settle i x s =
     (if i \<in> set (inflight s) \<and> i < length (closures s)
      then (let s0 = s\<lparr>inflight := remove1 i (inflight s)\<rparr>
            in finally_part i (catch_part i s0 (try_part i x s0)))
      else Inr s)"

text \<open>
  The effect, lines 27-62: its cleanup sets the flag of its closure to false (the
  revocation handles it also calls belong to the transport), and a run makes a new
  closure and calls its \<^verbatim>\<open>doFetch\<close>. React runs the effect at mount and again when
  the keys, the trigger or the transport change, and before every run it calls the
  cleanup that the run before returned, if there was one; at unmount it calls the
  cleanup of the last run. The cleanup in force is the one of the newest closure.
\<close>

definition cleanup :: "'a synced \<Rightarrow> 'a synced" where
  "cleanup s =
     (if closures s = [] then s
      else s\<lparr>closures := (closures s)[length (closures s) - 1 :=
                 (last (closures s))\<lparr>isMounted := False\<rparr>]\<rparr>)"

definition run_effect :: "'a synced \<Rightarrow> 'a synced" where
  "run_effect s =
     doFetch_call (length (closures s))
       (s\<lparr>closures := closures s @ [\<lparr>isMounted = True, closure_data = data s\<rparr>]\<rparr>)"

definition refetch :: "'a synced \<Rightarrow> 'a synced" where
  "refetch s = run_effect (cleanup (s\<lparr>trigger := trigger s + 1\<rparr>))"

datatype 'a hook_event =
    Mount
  | DepsChange
  | Refetch
  | Notify nat
  | Settle nat "'a outcome"
  | Unmount

fun hook_step :: "'a hook_event \<Rightarrow> 'a synced \<Rightarrow> string + 'a synced" where
  "hook_step Mount s = Inr (run_effect (cleanup s))"
| "hook_step DepsChange s = Inr (run_effect (cleanup s))"
| "hook_step Refetch s = Inr (refetch s)"
| "hook_step (Notify i) s = Inr (doFetch_call i s)"
| "hook_step (Settle i x) s = doFetch_settle i x s"
| "hook_step Unmount s = Inr (cleanup s)"

fun hook_run :: "'a hook_event list \<Rightarrow> 'a synced \<Rightarrow> string + 'a synced" where
  "hook_run [] s = Inr s"
| "hook_run (e # es) s = (case hook_step e s of Inl x \<Rightarrow> Inl x | Inr s1 \<Rightarrow> hook_run es s1)"

text \<open>The events of one closure: a call of its \<^verbatim>\<open>doFetch\<close> and the settling of its fetches.\<close>

fun of_closure :: "nat \<Rightarrow> 'a hook_event \<Rightarrow> bool" where
  "of_closure i (Notify j) = (j = i)"
| "of_closure i (Settle j x) = (j = i)"
| "of_closure i e = False"

text \<open>
  What can still happen to a hook after its unmount: calls of \<^verbatim>\<open>doFetch\<close> closures
  (by a dispatch that is under way) and the settling of fetches, of any closure.
\<close>

fun fetch_event :: "'a hook_event \<Rightarrow> bool" where
  "fetch_event (Notify j) = True"
| "fetch_event (Settle j x) = True"
| "fetch_event e = False"

section \<open>Invariants and side conditions\<close>

text \<open>
  A registry is well formed when every Set the map refers to was allocated and is not
  empty, no two keys share a Set object, and no Set holds a value twice.
\<close>

definition wf_registry :: "registry \<Rightarrow> bool" where
  "wf_registry r =
     ((\<forall>k a. listeners r k = Some a \<longrightarrow> a < nextAddr r \<and> ssize (heap r a) \<noteq> 0) \<and>
      (\<forall>k k' a. listeners r k = Some a \<longrightarrow> listeners r k' = Some a \<longrightarrow> k = k') \<and>
      (\<forall>a. distinct (live (heap r a))))"

text \<open>
  An action leaves the rest \<open>es\<close> of a pass over the Set of key \<open>k\<close> alone when it
  subscribes or revokes under another key, or revokes under \<open>k\<close> a callback that is
  not among \<open>es\<close>; a throw does not. The
  entries of a pass are undisturbed when every callback among them does only such
  actions with respect to the entries after it.
\<close>

fun harmless :: "string \<Rightarrow> set_data \<Rightarrow> action \<Rightarrow> bool" where
  "harmless k es (Subscribe k' c) = (k' \<noteq> k)"
| "harmless k es (Revoke k' c) = (k' \<noteq> k \<or> Some c \<notin> set es)"
| "harmless k es Throw = False"

fun undisturbed :: "(callback \<Rightarrow> action list) \<Rightarrow> string \<Rightarrow> set_data \<Rightarrow> bool" where
  "undisturbed P k [] = True"
| "undisturbed P k (None # es) = undisturbed P k es"
| "undisturbed P k (Some cb # es) = (list_all (harmless k es) (P cb) \<and> undisturbed P k es)"

text \<open>
  The Set at address \<open>a\<close> belongs to key \<open>k\<close> at most: it was allocated, and no
  other key refers to it.
\<close>

definition owned :: "nat \<Rightarrow> string \<Rightarrow> registry \<Rightarrow> bool" where
  "owned a k r = (wf_registry r \<and> a < nextAddr r \<and> (\<forall>k'. listeners r k' = Some a \<longrightarrow> k' = k))"

text \<open>
  In a hook, every closure but the newest has had its cleanup: the effect does not
  run again before the cleanup of the run before.
\<close>

definition superseded :: "'a synced \<Rightarrow> bool" where
  "superseded s = list_all (\<lambda>c. \<not> isMounted c) (butlast (closures s))"

text \<open>
  The host side of a transport agrees with its fields: what is installed on
  \<^verbatim>\<open>window\<close>, the running intervals and the open channels are exactly the ones the
  fields name, and the fields are set when, and only when, the transport is started
  (the channel may be missing on a started transport).
\<close>

definition opt_list :: "nat option \<Rightarrow> nat list" where
  "opt_list x = (case x of None \<Rightarrow> [] | Some i \<Rightarrow> [i])"

definition lifecycle_ok :: "transport \<Rightarrow> bool" where
  "lifecycle_ok s =
     (windowStorage s = opt_list (storageListener s) \<and>
      windowCustom s = opt_list (customEventListener s) \<and>
      timers s = opt_list (refreshInterval s) \<and>
      openChannels s = opt_list (channel s) \<and>
      (storageListener s \<noteq> None) = isStarted s \<and>
      (customEventListener s \<noteq> None) = isStarted s \<and>
      (refreshInterval s \<noteq> None) = isStarted s \<and>
      (channel s = None \<or> isStarted s))"

text \<open>Dispatching never touches the fields and host resources that start and stop manage.\<close>

definition same_host :: "transport \<Rightarrow> transport \<Rightarrow> bool" where
  "same_host s s' =
     (channel s' = channel s \<and> refreshInterval s' = refreshInterval s \<and>
      storageListener s' = storageListener s \<and>
      customEventListener s' = customEventListener s \<and> isStarted s' = isStarted s \<and>
      windowStorage s' = windowStorage s \<and> windowCustom s' = windowCustom s \<and>
      timers s' = timers s \<and> openChannels s' = openChannels s)"

text \<open>The last-sync time is not ahead of the next clock reading.\<close>

definition time_ok :: "(nat \<Rightarrow> int) \<Rightarrow> transport \<Rightarrow> bool" where
  "time_ok clk s = (lastSyncTime s \<le> clk (reads s))"

text \<open>
  What every dispatching function does to a state, and what every operation does:
  the registry stays well formed, the host side stays in agreement and, on a clock that
  never goes back, the last-sync time does not decrease.
\<close>

definition evolves :: "(nat \<Rightarrow> int) \<Rightarrow> transport \<Rightarrow> transport \<Rightarrow> bool" where
  "evolves clk s s' =
     (same_host s s' \<and>
      (wf_registry (registry s) \<longrightarrow> wf_registry (registry s')) \<and>
      (mono clk \<longrightarrow> time_ok clk s \<longrightarrow> time_ok clk s' \<and> lastSyncTime s \<le> lastSyncTime s'))"

definition steady :: "(nat \<Rightarrow> int) \<Rightarrow> transport \<Rightarrow> transport \<Rightarrow> bool" where
  "steady clk s s' =
     ((wf_registry (registry s) \<longrightarrow> wf_registry (registry s')) \<and>
      (lifecycle_ok s \<longrightarrow> lifecycle_ok s') \<and>
      (mono clk \<longrightarrow> time_ok clk s \<longrightarrow> time_ok clk s' \<and> lastSyncTime s \<le> lastSyncTime s'))"

text \<open>
  The state in which \<open>broadcast\<close> dispatches its event: the timestamp is read, the
  message is posted if there is a channel, and the event is recorded.
\<close>

definition outgoing ::
  "(nat \<Rightarrow> int) \<Rightarrow> bool \<Rightarrow> SyncEventType \<Rightarrow> string option \<Rightarrow> transport \<Rightarrow> transport" where
  "outgoing clk postOk t k s =
     (let fullMessage = \<lparr>msg_type = t, key = k, timestamp = clk (reads s)\<rparr>;
          s0 = s\<lparr>reads := Suc (reads s)\<rparr>;
          s1 = (case channel s0 of
                  None \<Rightarrow> s0
                | Some c \<Rightarrow>
                    if postOk then s0\<lparr>posted := posted s0 @ [fullMessage]\<rparr>
                    else s0\<lparr>console := console s0 @ [''Failed to broadcast message'']\<rparr>)
      in s1\<lparr>dispatched := dispatched s1 @ [StorageUpdateEvent fullMessage]\<rparr>)"

text \<open>The callbacks that a run has invoked, in order, when it returns.\<close>

definition invoked_by :: "transport option \<Rightarrow> callback list option" where
  "invoked_by x = (case x of None \<Rightarrow> None | Some s \<Rightarrow> Some (calls (registry s)))"

text \<open>The callbacks registered under a key when a run returns.\<close>

definition registered :: "transport option \<Rightarrow> string \<Rightarrow> callback list option" where
  "registered x k = (case x of None \<Rightarrow> None | Some s \<Rightarrow> Some (members (registry s) k))"

section \<open>Callback tables and clocks of the examples\<close>

text \<open>
  Callbacks that do nothing to the registry, a clock that advances by one at every
  reading, and a clock that is set back by a hundred after its first reading.
\<close>

definition no_actions :: "callback \<Rightarrow> action list" where
  "no_actions cb = []"

definition set_back_clock :: "nat \<Rightarrow> int" where
  "set_back_clock n = (if n = 0 then 1000 else 900 + int n)"

definition steady_clock :: "nat \<Rightarrow> int" where
  "steady_clock n = 1000 + int n"

text \<open>
  Three reentrant callback tables: callback 1 revokes callback 2 of the same key,
  callback 1 subscribes a new callback 3 under the same key, callback 1 revokes itself.
\<close>

definition revoker :: "callback \<Rightarrow> action list" where
  "revoker cb = (if cb = 1 then [Revoke ''teams'' 2] else [])"

definition joiner :: "callback \<Rightarrow> action list" where
  "joiner cb = (if cb = 1 then [Subscribe ''teams'' 3] else [])"

definition leaver :: "callback \<Rightarrow> action list" where
  "leaver cb = (if cb = 1 then [Revoke ''teams'' 1] else [])"

text \<open>A table in which callback 1 throws and the others do nothing.\<close>

definition thrower :: "callback \<Rightarrow> action list" where
  "thrower cb = (if cb = 1 then [Throw] else [])"

section \<open>Properties of the registry\<close>

lemma sdelete_idem: "sdelete cb (sdelete cb es) = sdelete cb es"
  by (induction es) (auto simp: sdelete_def)

lemma sdelete_absent: "Some cb \<notin> set es \<Longrightarrow> sdelete cb es = es"
  by (auto simp: sdelete_def intro!: map_idI)

lemma ssize_sadd: "0 < ssize (sadd cb es)"
  by (auto simp: ssize_def sadd_def filter_empty_conv)

lemma live_append: "live (es @ fs) = live es @ live fs"
  by (induction es rule: live.induct) simp_all

lemma set_live: "set (live es) = {cb. Some cb \<in> set es}"
  by (induction es rule: live.induct) auto

lemma live_sdelete: "live (sdelete cb es) = removeAll cb (live es)"
  by (induction es rule: live.induct) (auto simp: sdelete_def)

lemma ssize_live: "ssize es = length (live es)"
  by (induction es rule: live.induct) (simp_all add: ssize_def)

lemma distinct_sadd: "distinct (live es) \<Longrightarrow> distinct (live (sadd cb es))"
  by (simp add: sadd_def live_append set_live)

lemma distinct_sdelete: "distinct (live es) \<Longrightarrow> distinct (live (sdelete cb es))"
  by (simp add: live_sdelete distinct_removeAll)

lemma wf_empty: "wf_registry empty_registry"
  by (simp add: wf_registry_def empty_registry_def)

lemma wf_subscribe: "wf_registry r \<Longrightarrow> wf_registry (subscribe k cb r)"
  unfolding wf_registry_def subscribe_def
  by (auto simp: ssize_sadd less_Suc_eq distinct_sadd split: option.splits if_splits)

lemma wf_revoke: "wf_registry r \<Longrightarrow> wf_registry (revoke k cb r)"
  unfolding wf_registry_def revoke_def Let_def
  by (auto simp: distinct_sdelete split: option.splits if_splits)

lemma wf_perform_all: "wf_registry r \<Longrightarrow> wf_registry (state_of (perform_all xs r))"
  by (induction xs r rule: perform_all.induct) (simp_all add: wf_subscribe wf_revoke)

lemma wf_calls: "wf_registry (r\<lparr>calls := c\<rparr>) = wf_registry r"
  by (simp add: wf_registry_def)

lemma wf_invoke: "wf_registry r \<Longrightarrow> wf_registry (state_of (invoke P cb r))"
  by (simp add: invoke_def wf_perform_all wf_calls)

text \<open>
  What holds before a pass and is kept by every call of a callback holds after the
  pass, however it ends.
\<close>

lemma forEach_invariant:
  assumes run: "forEach P a i r = Some c"
    and I: "I r"
    and pres: "\<And>cb r. I r \<Longrightarrow> I (state_of (invoke P cb r))"
  shows "I (state_of c)"
proof -
  have "(case (((P, a), i), r) of (((P', a'), i'), r0) \<Rightarrow> P' = P \<longrightarrow> I r0 \<longrightarrow> I (state_of c))"
  proof (rule forEach.raw_induct
          [where Pa = "\<lambda>x y. case x of (((P', a'), i'), r0) \<Rightarrow> P' = P \<longrightarrow> I r0 \<longrightarrow> I (state_of y)",
           OF _ run], goal_cases)
    case (1 f P' a' i' r0 y)
    have ih: "I (state_of y)" if "f P a' (Suc i') r1 = Some y" "I r1" for r1
      using 1(1) [OF that(1)] that(2) by simp
    have "I (state_of y)" if pp: "P' = P" and r0: "I r0"
    proof (cases "i' < length (heap r0 a')")
      case False
      with 1(2) r0 show ?thesis by auto
    next
      case True
      show ?thesis
      proof (cases "heap r0 a' ! i'")
        case None
        with True 1(2) pp have "f P a' (Suc i') r0 = Some y" by simp
        then show ?thesis using r0 by (rule ih)
      next
        case (Some cb)
        show ?thesis
        proof (cases "invoke P cb r0")
          case (Normal r1)
          with True Some 1(2) pp have "f P a' (Suc i') r1 = Some y" by simp
          moreover from pres [OF r0, of cb] Normal have "I r1" by simp
          ultimately show ?thesis by (rule ih)
        next
          case (Thrown r1)
          with True Some 1(2) pp have "y = Thrown r1" by simp
          with pres [OF r0, of cb] Thrown show ?thesis by simp
        qed
      qed
    qed
    then show ?case by simp
  qed
  with I show ?thesis by simp
qed

lemma wf_forEach:
  "forEach P a i r = Some c \<Longrightarrow> wf_registry r \<Longrightarrow> wf_registry (state_of c)"
  by (erule forEach_invariant) (simp_all add: wf_invoke)

lemma wf_forEach_Normal:
  "forEach P a i r = Some (Normal r1) \<Longrightarrow> wf_registry r \<Longrightarrow> wf_registry r1"
  using wf_forEach [of P a i r "Normal r1"] by simp

lemma wf_forEach_Thrown:
  "forEach P a i r = Some (Thrown r1) \<Longrightarrow> wf_registry r \<Longrightarrow> wf_registry r1"
  using wf_forEach [of P a i r "Thrown r1"] by simp

lemma wf_notifyListeners:
  "notifyListeners P k r = Some c \<Longrightarrow> wf_registry r \<Longrightarrow> wf_registry (state_of c)"
  unfolding notifyListeners_def
  by (auto split: option.splits if_splits completion.splits
           dest: wf_forEach wf_forEach_Normal wf_forEach_Thrown)


lemma drop_sdelete: "Some c \<notin> set (drop n es) \<Longrightarrow> drop n (sdelete c es) = drop n es"
  by (auto simp: sdelete_def drop_map intro!: map_idI)

lemma length_sdelete: "length (sdelete c es) = length es"
  by (simp add: sdelete_def)

lemma subscribe_frame:
  assumes "owned a k r" and "k' \<noteq> k"
  shows "owned a k (subscribe k' c r) \<and> heap (subscribe k' c r) a = heap r a \<and>
         calls (subscribe k' c r) = calls r"
proof -
  from assms(1) have wf: "wf_registry r" and lt: "a < nextAddr r"
    and al: "\<And>k'. listeners r k' = Some a \<Longrightarrow> k' = k"
    by (auto simp: owned_def)
  have w: "wf_registry (subscribe k' c r)" using wf by (rule wf_subscribe)
  show ?thesis
  proof (cases "listeners r k'")
    case None
    with assms(2) lt al w show ?thesis
      by (auto simp: owned_def subscribe_def)
  next
    case (Some a')
    with al assms(2) have "a' \<noteq> a" by auto
    with Some assms(2) lt al w show ?thesis
      by (auto simp: owned_def subscribe_def)
  qed
qed

lemma revoke_frame:
  assumes "owned a k r" and "k' \<noteq> k \<or> Some c \<notin> set (drop n (heap r a))"
  shows "owned a k (revoke k' c r) \<and> length (heap (revoke k' c r) a) = length (heap r a) \<and>
         drop n (heap (revoke k' c r) a) = drop n (heap r a) \<and> calls (revoke k' c r) = calls r"
proof -
  from assms(1) have wf: "wf_registry r" and lt: "a < nextAddr r"
    and al: "\<And>k'. listeners r k' = Some a \<Longrightarrow> k' = k"
    by (auto simp: owned_def)
  have w: "wf_registry (revoke k' c r)" using wf by (rule wf_revoke)
  show ?thesis
  proof (cases "listeners r k'")
    case None
    with assms(1) show ?thesis by (simp add: revoke_def)
  next
    case (Some a')
    show ?thesis
    proof (cases "a' = a")
      case True
      with Some al have "k' = k" by auto
      with assms(2) have "Some c \<notin> set (drop n (heap r a))" by simp
      with Some True lt al w show ?thesis
        by (auto simp: owned_def revoke_def Let_def drop_sdelete length_sdelete split: if_splits)
    next
      case False
      with Some lt al w show ?thesis
        by (auto simp: owned_def revoke_def Let_def split: if_splits)
    qed
  qed
qed

lemma perform_all_frame:
  assumes "owned a k r" and "list_all (harmless k (drop n (heap r a))) xs"
  shows "\<exists>r'. perform_all xs r = Normal r' \<and> owned a k r' \<and>
           length (heap r' a) = length (heap r a) \<and>
           drop n (heap r' a) = drop n (heap r a) \<and> calls r' = calls r"
  using assms
proof (induction xs r rule: perform_all.induct)
  case (1 r)
  then show ?case by simp
next
  case (2 k' c xs r)
  from "2.prems" have ne: "k' \<noteq> k" by simp
  from subscribe_frame [OF "2.prems"(1) ne, of c]
  have o: "owned a k (subscribe k' c r)" and h: "heap (subscribe k' c r) a = heap r a"
    and c: "calls (subscribe k' c r) = calls r" by simp_all
  from "2.prems"(2) h have "list_all (harmless k (drop n (heap (subscribe k' c r) a))) xs"
    by simp
  from "2.IH" [OF o this] h c show ?case by simp
next
  case (3 k' c xs r)
  from "3.prems" have "k' \<noteq> k \<or> Some c \<notin> set (drop n (heap r a))" by simp
  from revoke_frame [OF "3.prems"(1) this]
  have o: "owned a k (revoke k' c r)"
    and l: "length (heap (revoke k' c r) a) = length (heap r a)"
    and d: "drop n (heap (revoke k' c r) a) = drop n (heap r a)"
    and c: "calls (revoke k' c r) = calls r" by simp_all
  from "3.prems"(2) d have "list_all (harmless k (drop n (heap (revoke k' c r) a))) xs"
    by simp
  from "3.IH" [OF o this] l d c show ?case by simp
next
  case (4 xs r)
  then show ?case by simp
qed

lemma invoke_frame:
  assumes "owned a k r"
    and "list_all (harmless k (drop n (heap r a))) (P cb)"
  shows "\<exists>r'. invoke P cb r = Normal r' \<and> owned a k r' \<and>
           length (heap r' a) = length (heap r a) \<and>
           drop n (heap r' a) = drop n (heap r a) \<and> calls r' = calls r @ [cb]"
proof -
  let ?r = "r\<lparr>calls := calls r @ [cb]\<rparr>"
  have o: "owned a k ?r" using assms(1) by (simp add: owned_def wf_calls)
  have "list_all (harmless k (drop n (heap ?r a))) (P cb)"
    using assms(2) by simp
  from perform_all_frame [OF o this] show ?thesis by (simp add: invoke_def)
qed

lemma forEach_undisturbed:
  assumes "owned a k r" and "undisturbed P k (drop i (heap r a))"
  shows "\<exists>r'. forEach P a i r = Some (Normal r') \<and>
           calls r' = calls r @ live (drop i (heap r a)) \<and> owned a k r'"
  using assms
proof (induction "length (heap r a) - i" arbitrary: i r)
  case 0
  then show ?case by (subst forEach.simps) simp
next
  case (Suc n)
  then have lt: "i < length (heap r a)" by simp
  then have split: "drop i (heap r a) = heap r a ! i # drop (Suc i) (heap r a)"
    by (simp add: Cons_nth_drop_Suc)
  show ?case
  proof (cases "heap r a ! i")
    case None
    with Suc.prems(2) split have u: "undisturbed P k (drop (Suc i) (heap r a))" by simp
    from Suc.hyps(2) have "n = length (heap r a) - Suc i" by simp
    from Suc.hyps(1) [OF this Suc.prems(1) u] None lt split show ?thesis
      by (subst forEach.simps) simp
  next
    case (Some cb)
    from Suc.prems(2) split Some have
      q: "list_all (harmless k (drop (Suc i) (heap r a))) (P cb)"
      and u: "undisturbed P k (drop (Suc i) (heap r a))" by simp_all
    from invoke_frame [where n = "Suc i" and P = P and cb = cb, OF Suc.prems(1) q]
    obtain r1 where i1: "invoke P cb r = Normal r1" and o: "owned a k r1"
      and len: "length (heap r1 a) = length (heap r a)"
      and dr: "drop (Suc i) (heap r1 a) = drop (Suc i) (heap r a)"
      and c: "calls r1 = calls r @ [cb]" by blast
    from Suc.hyps(2) len have m: "n = length (heap r1 a) - Suc i" by simp
    from u dr have u': "undisturbed P k (drop (Suc i) (heap r1 a))" by simp
    from Suc.hyps(1) [OF m o u'] obtain r' where
      "forEach P a (Suc i) r1 = Some (Normal r')"
      "calls r' = calls r1 @ live (drop (Suc i) (heap r1 a))"
      "owned a k r'" by blast
    with Some lt split c dr i1 show ?thesis
      by (subst forEach.simps) simp
  qed
qed

lemma forEach_silent:
  assumes "\<forall>cb. Some cb \<in> set (drop i (heap r a)) \<longrightarrow> P cb = []"
  shows "forEach P a i r = Some (Normal (r\<lparr>calls := calls r @ live (drop i (heap r a))\<rparr>))"
  using assms
proof (induction "length (heap r a) - i" arbitrary: i r)
  case 0
  then show ?case by (subst forEach.simps) simp
next
  case (Suc n)
  then have lt: "i < length (heap r a)" by simp
  then have split: "drop i (heap r a) = heap r a ! i # drop (Suc i) (heap r a)"
    by (simp add: Cons_nth_drop_Suc)
  from Suc.prems split have rest: "\<forall>cb. Some cb \<in> set (drop (Suc i) (heap r a)) \<longrightarrow> P cb = []"
    by simp
  show ?case
  proof (cases "heap r a ! i")
    case None
    from Suc.hyps(2) have "n = length (heap r a) - Suc i" by simp
    from Suc.hyps(1) [OF this rest] None lt split show ?thesis
      by (subst forEach.simps) simp
  next
    case (Some cb)
    with Suc.prems split have p: "P cb = []" by simp
    let ?r = "r\<lparr>calls := calls r @ [cb]\<rparr>"
    have i: "invoke P cb r = Normal ?r" by (simp add: invoke_def p)
    from Suc.hyps(2) have m: "n = length (heap ?r a) - Suc i" by simp
    from rest have rest': "\<forall>cb. Some cb \<in> set (drop (Suc i) (heap ?r a)) \<longrightarrow> P cb = []" by simp
    from Suc.hyps(1) [OF m rest'] Some lt split i show ?thesis
      by (subst forEach.simps) simp
  qed
qed

lemma notifyListeners_silent:
  assumes "\<forall>cb \<in> set (members r k) \<union> set (members r ''*''). P cb = []"
  shows "notifyListeners P k r =
           Some (Normal (r\<lparr>calls := calls r @ members r k @
                                      (if k = ''*'' then [] else members r ''*'')\<rparr>))"
proof -
  have 1: "(case listeners r k of None \<Rightarrow> Some (Normal r) | Some a \<Rightarrow> forEach P a 0 r) =
             Some (Normal (r\<lparr>calls := calls r @ members r k\<rparr>))"
  proof (cases "listeners r k")
    case None
    then show ?thesis by (simp add: members_def)
  next
    case (Some a)
    with assms have "\<forall>cb. Some cb \<in> set (drop 0 (heap r a)) \<longrightarrow> P cb = []"
      by (simp add: members_def set_live)
    from forEach_silent [OF this] Some show ?thesis by (simp add: members_def)
  qed
  let ?r = "r\<lparr>calls := calls r @ members r k\<rparr>"
  have 2: "(case listeners ?r ''*'' of None \<Rightarrow> Some (Normal ?r)
            | Some g \<Rightarrow> if k \<noteq> ''*'' then forEach P g 0 ?r else Some (Normal ?r)) =
             Some (Normal (?r\<lparr>calls := calls ?r @ (if k = ''*'' then [] else members r ''*'')\<rparr>))"
  proof (cases "listeners r ''*''")
    case None
    then show ?thesis by (simp add: members_def)
  next
    case (Some g)
    with assms have "\<forall>cb. Some cb \<in> set (drop 0 (heap ?r g)) \<longrightarrow> P cb = []"
      by (simp add: members_def set_live)
    from forEach_silent [OF this] Some show ?thesis by (simp add: members_def)
  qed
  show ?thesis unfolding notifyListeners_def 1 using 2 by simp
qed


section \<open>Every operation keeps the invariants\<close>

lemma evolves_refl: "evolves clk s s"
  by (simp add: evolves_def same_host_def)

lemma evolves_trans: "evolves clk s t \<Longrightarrow> evolves clk t u \<Longrightarrow> evolves clk s u"
  by (auto simp: evolves_def same_host_def)

lemma evolves_updateSyncTime: "evolves clk s (updateSyncTime clk s)"
  by (auto simp: evolves_def same_host_def updateSyncTime_def time_ok_def
           dest: monoD [of clk "reads s" "Suc (reads s)"])

lemma evolves_uncaught: "evolves clk s (s\<lparr>uncaught := n\<rparr>)"
  by (simp add: evolves_def same_host_def time_ok_def)

lemma on_registry_shape:
  "on_registry f s = Some c \<Longrightarrow>
     \<exists>d. f (registry s) = Some d \<and> state_of c = s\<lparr>registry := state_of d\<rparr>"
  by (auto simp: on_registry_def split: option.splits completion.splits)

lemma evolves_notify:
  assumes "on_registry (notifyListeners P k) s = Some c"
  shows "evolves clk s (state_of c)"
proof -
  from on_registry_shape [OF assms] obtain d where
    d: "notifyListeners P k (registry s) = Some d" and c: "state_of c = s\<lparr>registry := state_of d\<rparr>"
    by blast
  from wf_notifyListeners [OF d] c show ?thesis
    by (simp add: evolves_def same_host_def time_ok_def)
qed

lemma evolves_handleSyncMessage:
  "handleSyncMessage P clk m s = Some c \<Longrightarrow> evolves clk s (state_of c)"
  unfolding handleSyncMessage_def Let_def
  by (auto split: SyncEventType.splits option.splits if_splits
           intro: evolves_updateSyncTime evolves_trans [OF evolves_updateSyncTime evolves_notify])

lemma evolves_notify_then:
  assumes "(case on_registry (notifyListeners P k) s of
              None \<Rightarrow> None
            | Some (Thrown s1) \<Rightarrow> Some (Thrown s1)
            | Some (Normal s1) \<Rightarrow> Some (Normal (updateSyncTime clk s1))) = Some c"
  shows "evolves clk s (state_of c)"
proof (cases "on_registry (notifyListeners P k) s")
  case None
  with assms show ?thesis by simp
next
  case (Some d)
  from evolves_notify [OF Some] have e: "evolves clk s (state_of d)" .
  show ?thesis
  proof (cases d)
    case (Normal s1)
    with Some assms have "c = Normal (updateSyncTime clk s1)" by simp
    with e Normal evolves_updateSyncTime [of clk s1] show ?thesis
      by (auto intro: evolves_trans)
  next
    case (Thrown s1)
    with Some assms e show ?thesis by auto
  qed
qed

lemma evolves_storageListenerBody:
  assumes "storageListenerBody P clk ek s = Some c"
  shows "evolves clk s (state_of c)"
proof (cases ek)
  case None
  with assms show ?thesis by (auto simp: storageListenerBody_def evolves_refl)
next
  case (Some k)
  show ?thesis
  proof (cases "k = []")
    case True
    with Some assms show ?thesis by (auto simp: storageListenerBody_def evolves_refl)
  next
    case False
    with Some assms show ?thesis
      by (intro evolves_notify_then [where P = P and k = k and s = s and clk = clk and c = c]) (simp add: storageListenerBody_def)
  qed
qed

lemma evolves_customEventListenerBody:
  assumes "customEventListenerBody P clk d s = Some c"
  shows "evolves clk s (state_of c)"
proof (cases d)
  case None
  with assms show ?thesis by (auto simp: customEventListenerBody_def evolves_refl)
next
  case (Some x)
  show ?thesis
  proof (cases "d_type x")
    case (Some t)
    with \<open>d = Some x\<close> assms show ?thesis
      by (auto simp: customEventListenerBody_def intro: evolves_handleSyncMessage)
  next
    case None
    show ?thesis
    proof (cases "d_key x")
      case None
      with \<open>d = Some x\<close> \<open>d_type x = None\<close> assms show ?thesis
        by (auto simp: customEventListenerBody_def evolves_refl)
    next
      case (Some k)
      show ?thesis
      proof (cases "k = []")
        case True
        with Some \<open>d = Some x\<close> \<open>d_type x = None\<close> assms show ?thesis
          by (auto simp: customEventListenerBody_def evolves_refl)
      next
        case False
        with Some \<open>d = Some x\<close> \<open>d_type x = None\<close> assms show ?thesis
          by (intro evolves_notify_then [where P = P and k = k and s = s and clk = clk and c = c]) (simp add: customEventListenerBody_def)
      qed
    qed
  qed
qed

lemma evolves_host_call:
  assumes "\<And>s c. f s = Some c \<Longrightarrow> evolves clk s (state_of c)"
  shows "host_call f s = Some s' \<Longrightarrow> evolves clk s s'"
  by (auto simp: host_call_def split: option.splits completion.splits
           dest!: assms intro: evolves_trans [OF _ evolves_uncaught])

lemma evolves_each:
  assumes "\<And>s s'. f s = Some s' \<Longrightarrow> evolves clk s s'"
  shows "each f ls s = Some s' \<Longrightarrow> evolves clk s s'"
proof (induction ls arbitrary: s)
  case Nil
  then show ?case by (simp add: evolves_refl)
next
  case (Cons l ls)
  then show ?case
    by (auto split: option.splits intro: evolves_trans assms)
qed

lemma evolves_outgoing: "evolves clk s (outgoing clk postOk t k s)"
  by (auto simp: outgoing_def Let_def evolves_def same_host_def time_ok_def split: option.splits
           dest: monoD [of clk "reads s" "Suc (reads s)"])

lemma broadcast_outgoing:
  "broadcast P clk postOk t k s =
     (case each (host_call (customEventListenerBody P clk
                   (Some \<lparr>d_type = Some t, d_key = k, d_timestamp = clk (reads s)\<rparr>)))
             (windowCustom s) (outgoing clk postOk t k s) of
        None \<Rightarrow> None
      | Some s3 \<Rightarrow> Some (updateSyncTime clk s3))"
  by (simp add: broadcast_def outgoing_def Let_def detail_of_def split: option.splits)

lemma evolves_broadcast: "broadcast P clk postOk t k s = Some s' \<Longrightarrow> evolves clk s s'"
proof -
  assume b: "broadcast P clk postOk t k s = Some s'"
  let ?d = "Some \<lparr>d_type = Some t, d_key = k, d_timestamp = clk (reads s)\<rparr>"
  from b obtain s3 where
    e: "each (host_call (customEventListenerBody P clk ?d)) (windowCustom s)
          (outgoing clk postOk t k s) = Some s3"
    and s': "s' = updateSyncTime clk s3"
    by (auto simp: broadcast_outgoing split: option.splits)
  from e have "evolves clk (outgoing clk postOk t k s) s3"
    by (rule evolves_each [rotated])
       (erule evolves_host_call [rotated], rule evolves_customEventListenerBody)
  with evolves_outgoing [of clk s postOk t k] s' show ?thesis
    by (blast intro: evolves_trans evolves_updateSyncTime)
qed

lemma evolves_steady: "evolves clk s s' \<Longrightarrow> steady clk s s'"
  by (auto simp: evolves_def steady_def same_host_def lifecycle_ok_def)

lemma steady_start: "steady clk s (start env s)"
  by (auto simp: steady_def start_def startAutoRefresh_def setupStorageListener_def
        initializeBroadcastChannel_def lifecycle_ok_def opt_list_def time_ok_def
        split: channel_env.splits)

lemma wf_clear: "wf_registry r \<Longrightarrow> wf_registry (r\<lparr>listeners := Map.empty\<rparr>)"
  by (simp add: wf_registry_def)

lemma steady_stop: "steady clk s (stop s)"
  by (auto simp: steady_def stop_def destroy_def Let_def lifecycle_ok_def opt_list_def
        time_ok_def wf_clear split: option.splits)

lemma steady_step: "step P clk x s = Some s' \<Longrightarrow> steady clk s s'"
proof (cases x)
  case (OpStart env)
  assume "step P clk x s = Some s'"
  with OpStart show ?thesis by (auto simp: steady_start)
next
  case OpStop
  assume "step P clk x s = Some s'"
  with OpStop show ?thesis by (auto simp: steady_stop)
next
  case (OpSubscribe k cb)
  assume "step P clk x s = Some s'"
  with OpSubscribe show ?thesis
    by (auto simp: steady_def lifecycle_ok_def time_ok_def wf_subscribe)
next
  case (OpRevoke k cb)
  assume "step P clk x s = Some s'"
  with OpRevoke show ?thesis
    by (auto simp: steady_def lifecycle_ok_def time_ok_def wf_revoke)
next
  case (OpNotifyUpdate postOk k)
  assume "step P clk x s = Some s'"
  with OpNotifyUpdate show ?thesis
    by (auto simp: notifyUpdate_def intro: evolves_steady evolves_broadcast)
next
  case (OpForceSync postOk k)
  assume "step P clk x s = Some s'"
  with OpForceSync show ?thesis
    by (auto simp: forceSync_def intro: evolves_steady evolves_broadcast)
next
  case (OpTick postOk)
  assume "step P clk x s = Some s'"
  with OpTick have "each (broadcast P clk postOk DataRefresh None) (timers s) s = Some s'" by simp
  then have "evolves clk s s'"
    by (rule evolves_each [rotated]) (rule evolves_broadcast)
  then show ?thesis by (rule evolves_steady)
next
  case (OpChannelMessage m)
  assume st: "step P clk x s = Some s'"
  show ?thesis
  proof (cases "channel s")
    case None
    with st OpChannelMessage show ?thesis by (auto intro: evolves_steady evolves_refl)
  next
    case (Some c)
    with st OpChannelMessage have "host_call (handleSyncMessage P clk m) s = Some s'" by simp
    then have "evolves clk s s'"
      by (rule evolves_host_call [rotated]) (rule evolves_handleSyncMessage)
    then show ?thesis by (rule evolves_steady)
  qed
next
  case (OpStorageEvent ek)
  assume "step P clk x s = Some s'"
  with OpStorageEvent
  have "each (host_call (storageListenerBody P clk ek)) (windowStorage s) s = Some s'" by simp
  then have "evolves clk s s'"
    by (rule evolves_each [rotated])
       (erule evolves_host_call [rotated], rule evolves_storageListenerBody)
  then show ?thesis by (rule evolves_steady)
next
  case (OpCustomEvent d)
  assume "step P clk x s = Some s'"
  with OpCustomEvent
  have "each (host_call (customEventListenerBody P clk d)) (windowCustom s) s = Some s'" by simp
  then have "evolves clk s s'"
    by (rule evolves_each [rotated])
       (erule evolves_host_call [rotated], rule evolves_customEventListenerBody)
  then show ?thesis by (rule evolves_steady)
qed

lemma steady_run: "run P clk xs s = Some s' \<Longrightarrow> steady clk s s'"
proof (induction xs arbitrary: s)
  case Nil
  then show ?case by (simp add: steady_def)
next
  case (Cons x xs)
  then obtain s1 where 1: "step P clk x s = Some s1" and 2: "run P clk xs s1 = Some s'"
    by (auto split: option.splits)
  from steady_step [OF 1] Cons.IH [OF 2] show ?case
    by (auto simp: steady_def)
qed

lemma init_ok: "wf_registry (registry (init clk))" "lifecycle_ok (init clk)"
  by (simp_all add: init_def wf_empty lifecycle_ok_def opt_list_def)

lemma init_time_ok: "mono clk \<Longrightarrow> time_ok clk (init clk)"
  by (simp add: init_def time_ok_def monoD)

lemma run_init_wf: "run P clk xs (init clk) = Some s \<Longrightarrow> wf_registry (registry s)"
  using steady_run [of P clk xs "init clk" s] init_ok by (simp add: steady_def)

lemma run_init_lifecycle: "run P clk xs (init clk) = Some s \<Longrightarrow> lifecycle_ok s"
  using steady_run [of P clk xs "init clk" s] init_ok by (simp add: steady_def)

lemma run_init_time: "mono clk \<Longrightarrow> run P clk xs (init clk) = Some s \<Longrightarrow> time_ok clk s"
  using steady_run [of P clk xs "init clk" s] init_time_ok by (simp add: steady_def)


section \<open>The claims about reachable states\<close>

text \<open>
  Claim C6. After any sequence of operations on a new transport (subscribe, revocation,
  every kind of dispatch, start and stop), no key of the \<open>listeners\<close> map refers to a
  Set of size zero; and revoking the only callback of a key removes the key.
\<close>

theorem no_empty_bucket:
  assumes "run P clk xs (init clk) = Some s"
  shows "(\<forall>k a. listeners (registry s) k = Some a \<longrightarrow> 0 < ssize (heap (registry s) a)) \<and>
         (\<forall>k cb. set (members (registry s) k) \<subseteq> {cb} \<longrightarrow>
                 listeners (revoke k cb (registry s)) k = None)"
proof -
  from assms have "wf_registry (registry s)" by (rule run_init_wf)
  then have 1: "\<forall>k a. listeners (registry s) k = Some a \<longrightarrow> 0 < ssize (heap (registry s) a)"
    by (auto simp: wf_registry_def)
  have 2: "listeners (revoke k cb (registry s)) k = None"
    if "set (members (registry s) k) \<subseteq> {cb}" for k cb
  proof (cases "listeners (registry s) k")
    case None
    then show ?thesis by (simp add: revoke_def)
  next
    case (Some a)
    with that have "set (live (heap (registry s) a)) \<subseteq> {cb}" by (simp add: members_def)
    then have "removeAll cb (live (heap (registry s) a)) = []"
      by (auto simp: removeAll_filter_not_eq filter_empty_conv)
    then have "ssize (sdelete cb (heap (registry s) a)) = 0"
      by (simp add: ssize_live live_sdelete)
    with Some show ?thesis by (simp add: revoke_def Let_def)
  qed
  from 1 2 show ?thesis by blast
qed

lemmas run_defs = subscribe_def revoke_def sadd_def sdelete_def ssize_def init_def
  empty_registry_def members_def

theorem no_empty_bucket_witness:
  "map_option (\<lambda>s. (listeners (registry s) ''a'', ssize (heap (registry s) 0),
        listeners (revoke ''a'' 2 (registry s)) ''a''))
     (run no_actions steady_clock
        [OpSubscribe ''a'' 1, OpSubscribe ''a'' 2, OpRevoke ''a'' 1] (init steady_clock))
   = Some (Some 0, 1, None)"
proof -
  define s where "s = the (run no_actions steady_clock
        [OpSubscribe ''a'' 1, OpSubscribe ''a'' 2, OpRevoke ''a'' 1] (init steady_clock))"
  have r: "run no_actions steady_clock
        [OpSubscribe ''a'' 1, OpSubscribe ''a'' 2, OpRevoke ''a'' 1] (init steady_clock) = Some s"
    by (simp add: s_def)
  have l: "listeners (registry s) ''a'' = Some 0"
    by (simp add: s_def run_defs)
  have m: "members (registry s) ''a'' = [2]"
    by (simp add: s_def run_defs)
  have z: "ssize (heap (registry s) 0) = 1"
    by (simp add: s_def run_defs)
  from no_empty_bucket [OF r] l m z
  have "map_option (\<lambda>s. (listeners (registry s) ''a'', ssize (heap (registry s) 0),
        listeners (revoke ''a'' 2 (registry s)) ''a'')) (Some s) = Some (Some 0, 1, None)"
    by simp
  then show ?thesis by (simp only: r)
qed

lemma run_append:
  "run P clk (xs @ ys) s = (case run P clk xs s of None \<Rightarrow> None | Some s1 \<Rightarrow> run P clk ys s1)"
  by (induction xs arbitrary: s) (auto split: option.splits)

lemma run_snoc:
  "run P clk (xs @ [x]) s = (case run P clk xs s of None \<Rightarrow> None | Some s1 \<Rightarrow> step P clk x s1)"
  by (induction xs arbitrary: s) (auto split: option.splits)

text \<open>
  Claim C3 (as amended). If the clock never goes back, every value that
  \<open>getLastSyncTime\<close> returns is at most any value it returns later, whatever
  operations run in between.
\<close>

theorem lastSyncTime_nondecreasing:
  assumes "mono clk"
    and "run P clk xs (init clk) = Some s1"
    and "run P clk ys s1 = Some s2"
  shows "getLastSyncTime s1 \<le> getLastSyncTime s2"
proof -
  from assms(1,2) have "time_ok clk s1" by (rule run_init_time)
  with steady_run [OF assms(3)] assms(1) show ?thesis
    by (simp add: steady_def getLastSyncTime_def)
qed

lemma mono_steady_clock: "mono steady_clock"
  by (simp add: mono_def steady_clock_def)

theorem lastSyncTime_nondecreasing_witness:
  "mono steady_clock \<and>
   map_option getLastSyncTime (run no_actions steady_clock [] (init steady_clock)) = Some 1000 \<and>
   map_option getLastSyncTime
     (run no_actions steady_clock [OpNotifyUpdate True ''teams''] (init steady_clock)) = Some 1002 \<and>
   (1000 :: int) \<le> 1002"
proof -
  define s2 where
    "s2 = the (run no_actions steady_clock [OpNotifyUpdate True ''teams''] (init steady_clock))"
  have r1: "run no_actions steady_clock [] (init steady_clock) = Some (init steady_clock)"
    by simp
  have r2: "run no_actions steady_clock [OpNotifyUpdate True ''teams''] (init steady_clock) = Some s2"
    by (simp add: s2_def notifyUpdate_def broadcast_def Let_def init_def updateSyncTime_def)
  have t1: "getLastSyncTime (init steady_clock) = 1000"
    by (simp add: getLastSyncTime_def init_def steady_clock_def)
  have t2: "getLastSyncTime s2 = 1002"
    by (simp add: s2_def getLastSyncTime_def notifyUpdate_def broadcast_def Let_def init_def
          updateSyncTime_def steady_clock_def)
  from lastSyncTime_nondecreasing [OF mono_steady_clock r1 r2] t1 t2 mono_steady_clock
  have "mono steady_clock \<and>
   map_option getLastSyncTime (Some (init steady_clock)) = Some 1000 \<and>
   map_option getLastSyncTime (Some s2) = Some 1002 \<and> (1000 :: int) \<le> 1002"
    by simp
  then show ?thesis by (simp only: r1 r2)
qed

text \<open>
  The claim as stated fails when the clock is set back between two readings:
  \<open>updateSyncTime\<close> stores whatever \<^verbatim>\<open>Date.now()\<close> returns. Here the first reading
  (the field initialiser) is 1000 and the later ones are 901, 902, ...; after one
  \<open>notifyUpdate\<close> the last-sync time has gone from 1000 to 902.
\<close>

theorem lastSyncTime_decreases_counterexample:
  "getLastSyncTime (init set_back_clock) = 1000 \<and>
   map_option getLastSyncTime
     (run no_actions set_back_clock [OpNotifyUpdate True ''teams''] (init set_back_clock)) = Some 902"
  by (simp add: getLastSyncTime_def notifyUpdate_def broadcast_def Let_def init_def
        updateSyncTime_def set_back_clock_def)

text \<open>
  Claim C10. On a transport that is not started, \<open>notifyUpdate\<close> and \<open>forceSync\<close>
  return, stamp the message with the clock, dispatch it on \<^verbatim>\<open>window\<close>, set the
  last-sync time and dispatch the time signal; the registry, and with it the record of
  callback invocations, is unchanged, and nothing is posted to a channel.
\<close>

theorem stopped_broadcast_calls_nothing:
  assumes "run P clk xs (init clk) = Some s" and "\<not> isStarted s"
  shows "notifyUpdate P clk postOk k s =
           Some (s\<lparr>lastSyncTime := clk (Suc (reads s)),
                   reads := Suc (Suc (reads s)),
                   dispatched := dispatched s @
                     [StorageUpdateEvent
                        \<lparr>msg_type = StorageUpdate, key = Some k, timestamp = clk (reads s)\<rparr>,
                      SyncTimeUpdateEvent (clk (Suc (reads s)))]\<rparr>) \<and>
         forceSync P clk postOk ko s =
           Some (s\<lparr>lastSyncTime := clk (Suc (reads s)),
                   reads := Suc (Suc (reads s)),
                   dispatched := dispatched s @
                     [StorageUpdateEvent
                        \<lparr>msg_type = ForceSync, key = ko, timestamp = clk (reads s)\<rparr>,
                      SyncTimeUpdateEvent (clk (Suc (reads s)))]\<rparr>)"
proof -
  from assms(1) have "lifecycle_ok s" by (rule run_init_lifecycle)
  with assms(2) have "windowCustom s = []" "channel s = None"
    by (auto simp: lifecycle_ok_def opt_list_def)
  then show ?thesis
    by (simp add: notifyUpdate_def forceSync_def broadcast_def Let_def updateSyncTime_def)
qed

theorem stopped_broadcast_calls_nothing_witness:
  "map_option (\<lambda>s. (isStarted s, members (registry s) ''teams'', members (registry s) ''*''))
     (run no_actions steady_clock
        [OpSubscribe ''teams'' 1, OpSubscribe ''*'' 2] (init steady_clock)) =
   Some (False, [1], [2]) \<and>
   map_option (\<lambda>s. (calls (registry s), lastSyncTime s, dispatched s))
     (run no_actions steady_clock
        ([OpSubscribe ''teams'' 1, OpSubscribe ''*'' 2] @ [OpNotifyUpdate True ''teams''])
        (init steady_clock)) =
   Some ([], 1002,
         [StorageUpdateEvent \<lparr>msg_type = StorageUpdate, key = Some ''teams'', timestamp = 1001\<rparr>,
          SyncTimeUpdateEvent 1002])"
proof -
  define s where "s = the (run no_actions steady_clock
        [OpSubscribe ''teams'' 1, OpSubscribe ''*'' 2] (init steady_clock))"
  have r: "run no_actions steady_clock
        [OpSubscribe ''teams'' 1, OpSubscribe ''*'' 2] (init steady_clock) = Some s"
    by (simp add: s_def)
  have n: "\<not> isStarted s" by (simp add: s_def init_def)
  have f: "calls (registry s) = []" "reads s = 1" "dispatched s = []"
    "members (registry s) ''teams'' = [1]" "members (registry s) ''*'' = [2]"
    by (simp_all add: s_def run_defs)
  have r2: "run no_actions steady_clock
        ([OpSubscribe ''teams'' 1, OpSubscribe ''*'' 2] @ [OpNotifyUpdate True ''teams''])
        (init steady_clock) = notifyUpdate no_actions steady_clock True ''teams'' s"
    by (simp only: run_snoc r option.case step.simps)
  from stopped_broadcast_calls_nothing [OF r n, of True "''teams''" None] n f
  show ?thesis
    by (simp only: r r2) (simp add: steady_clock_def)
qed


lemma handleSyncMessage_shape:
  assumes "handleSyncMessage P clk m s = Some c"
  shows "\<exists>r. state_of c = (updateSyncTime clk s)\<lparr>registry := r\<rparr>"
proof -
  have n: "\<exists>r. state_of c = (updateSyncTime clk s)\<lparr>registry := r\<rparr>"
    if "on_registry (notifyListeners P k) (updateSyncTime clk s) = Some c" for k
    using on_registry_shape [OF that] by blast
  have i: "\<exists>r. updateSyncTime clk s = (updateSyncTime clk s)\<lparr>registry := r\<rparr>"
    by (rule exI [of _ "registry (updateSyncTime clk s)"]) simp
  from assms show ?thesis
    unfolding handleSyncMessage_def Let_def
    by (auto split: SyncEventType.splits option.splits if_splits intro: n i)
qed

lemma outgoing_fields:
  "registry (outgoing clk postOk t k s) = registry s"
  "reads (outgoing clk postOk t k s) = Suc (reads s)"
  "dispatched (outgoing clk postOk t k s) =
     dispatched s @ [StorageUpdateEvent \<lparr>msg_type = t, key = k, timestamp = clk (reads s)\<rparr>]"
  by (simp_all add: outgoing_def Let_def split: option.splits)

lemma each_single: "each f [l] s = f s"
  by (simp split: option.splits)

lemma broadcast_started:
  assumes "lifecycle_ok s" and "isStarted s"
  shows "broadcast P clk postOk t k s =
     (case host_call
             (handleSyncMessage P clk \<lparr>msg_type = t, key = k, timestamp = clk (reads s)\<rparr>)
             (outgoing clk postOk t k s) of
        None \<Rightarrow> None
      | Some s3 \<Rightarrow> Some (updateSyncTime clk s3))"
proof -
  from assms obtain l where l: "windowCustom s = [l]"
    by (auto simp: lifecycle_ok_def opt_list_def split: option.splits)
  show ?thesis
    by (simp only: broadcast_outgoing l each_single)
       (simp add: customEventListenerBody_def host_call_def)
qed

lemma broadcast_started_dispatched:
  assumes "lifecycle_ok s" and "isStarted s" and "broadcast P clk postOk t k s = Some s'"
  shows "dispatched s' = dispatched s @
           [StorageUpdateEvent \<lparr>msg_type = t, key = k, timestamp = clk (reads s)\<rparr>,
            SyncTimeUpdateEvent (clk (Suc (reads s))),
            SyncTimeUpdateEvent (clk (Suc (Suc (reads s))))]"
proof -
  let ?m = "\<lparr>msg_type = t, key = k, timestamp = clk (reads s)\<rparr>"
  from assms(3) obtain s3 where
    h: "host_call (handleSyncMessage P clk ?m) (outgoing clk postOk t k s) = Some s3"
    and s': "s' = updateSyncTime clk s3"
    by (auto simp: broadcast_started [OF assms(1,2)] split: option.splits)
  from h obtain c where
    c: "handleSyncMessage P clk ?m (outgoing clk postOk t k s) = Some c"
    and d: "dispatched s3 = dispatched (state_of c)" "reads s3 = reads (state_of c)"
    by (auto simp: host_call_def split: option.splits completion.splits)
  from handleSyncMessage_shape [OF c] obtain r where
    "state_of c = (updateSyncTime clk (outgoing clk postOk t k s))\<lparr>registry := r\<rparr>" by blast
  with s' d show ?thesis
    by (simp add: updateSyncTime_def outgoing_fields)
qed

lemma tick_started:
  assumes "lifecycle_ok s" and "isStarted s"
  shows "step P clk (OpTick postOk) s = broadcast P clk postOk DataRefresh None s"
proof -
  from assms obtain t where "timers s = [t]"
    by (auto simp: lifecycle_ok_def opt_list_def split: option.splits)
  then show ?thesis by (simp split: option.splits)
qed

lemma broadcast_started_silent:
  assumes "lifecycle_ok s" and "isStarted s"
    and "\<forall>cb \<in> set (members (registry s) ''*''). P cb = []"
  shows "\<exists>s'. broadcast P clk postOk DataRefresh None s = Some s' \<and>
           calls (registry s') = calls (registry s) @ members (registry s) ''*''"
proof -
  have "notifyListeners P ''*'' (registry s) =
          Some (Normal ((registry s)\<lparr>calls := calls (registry s) @ members (registry s) ''*''\<rparr>))"
    using notifyListeners_silent [of "registry s" "''*''" P] assms(3) by simp
  then show ?thesis
    by (simp add: broadcast_started [OF assms(1,2)] handleSyncMessage_def Let_def
          on_registry_def host_call_def updateSyncTime_def outgoing_fields)
qed

text \<open>
  Claim C4. On a started transport that was reached from a new one, \<open>start\<close> only
  appends the warning to the console. There is then one interval, one listener of
  each kind and at most one channel, and one tick dispatches one \<open>data-refresh\<close>
  message (followed by the two time signals of its handling); with wildcard callbacks
  that leave the registry alone, the tick returns and has invoked each of them once.
\<close>

theorem start_twice:
  assumes "run P clk xs (init clk) = Some s" and "isStarted s"
  shows "start env s = s\<lparr>console := console s @ [''SyncService already started'']\<rparr> \<and>
         length (timers (start env s)) = 1 \<and>
         length (windowStorage (start env s)) = 1 \<and>
         length (windowCustom (start env s)) = 1 \<and>
         length (openChannels (start env s)) \<le> 1 \<and>
         (\<forall>s'. step P clk (OpTick postOk) (start env s) = Some s' \<longrightarrow>
               dispatched s' = dispatched s @
                 [StorageUpdateEvent
                    \<lparr>msg_type = DataRefresh, key = None, timestamp = clk (reads s)\<rparr>,
                  SyncTimeUpdateEvent (clk (Suc (reads s))),
                  SyncTimeUpdateEvent (clk (Suc (Suc (reads s))))]) \<and>
         ((\<forall>cb \<in> set (members (registry s) ''*''). P cb = []) \<longrightarrow>
          (\<exists>s'. step P clk (OpTick postOk) (start env s) = Some s' \<and>
                calls (registry s') = calls (registry s) @ members (registry s) ''*''))"
proof -
  let ?s = "s\<lparr>console := console s @ [''SyncService already started'']\<rparr>"
  from assms(1) have lc: "lifecycle_ok s" by (rule run_init_lifecycle)
  have st: "start env s = ?s" using assms(2) by (simp add: start_def)
  have lc': "lifecycle_ok ?s" "isStarted ?s" using lc assms(2) by (simp_all add: lifecycle_ok_def)
  have len: "length (timers ?s) = 1" "length (windowStorage ?s) = 1"
    "length (windowCustom ?s) = 1" "length (openChannels ?s) \<le> 1"
    using lc assms(2) by (auto simp: lifecycle_ok_def opt_list_def split: option.splits)
  have d: "dispatched s' = dispatched s @
                 [StorageUpdateEvent
                    \<lparr>msg_type = DataRefresh, key = None, timestamp = clk (reads s)\<rparr>,
                  SyncTimeUpdateEvent (clk (Suc (reads s))),
                  SyncTimeUpdateEvent (clk (Suc (Suc (reads s))))]"
    if "step P clk (OpTick postOk) ?s = Some s'" for s'
    using broadcast_started_dispatched [OF lc', of P clk postOk DataRefresh None s'] that
    by (simp only: tick_started [OF lc']) simp
  have c: "\<exists>s'. step P clk (OpTick postOk) ?s = Some s' \<and>
                calls (registry s') = calls (registry s) @ members (registry s) ''*''"
    if "\<forall>cb \<in> set (members (registry s) ''*''). P cb = []"
    using broadcast_started_silent [OF lc', of P clk postOk] that
    by (simp only: tick_started [OF lc']) simp
  from st len d c show ?thesis by (simp only: st) blast
qed


theorem start_twice_witness:
  "map_option (\<lambda>s. (isStarted s, members (registry s) ''*'', calls (registry s)))
     (run no_actions steady_clock [OpStart ChannelOk, OpSubscribe ''*'' 5] (init steady_clock)) =
     Some (True, [5], []) \<and>
   map_option (\<lambda>s. (length (timers s), console s))
     (run no_actions steady_clock
        ([OpStart ChannelOk, OpSubscribe ''*'' 5] @ [OpStart ChannelOk]) (init steady_clock)) =
     Some (1, [''SyncService already started'']) \<and>
   map_option (\<lambda>s. (calls (registry s), dispatched s))
     (run no_actions steady_clock
        (([OpStart ChannelOk, OpSubscribe ''*'' 5] @ [OpStart ChannelOk]) @ [OpTick True])
        (init steady_clock)) =
     Some ([5],
           [StorageUpdateEvent \<lparr>msg_type = DataRefresh, key = None, timestamp = 1001\<rparr>,
            SyncTimeUpdateEvent 1002, SyncTimeUpdateEvent 1003])"
proof -
  define s where "s = the (run no_actions steady_clock
        [OpStart ChannelOk, OpSubscribe ''*'' 5] (init steady_clock))"
  have r: "run no_actions steady_clock
        [OpStart ChannelOk, OpSubscribe ''*'' 5] (init steady_clock) = Some s"
    by (simp add: s_def)
  have st: "isStarted s"
    by (simp add: s_def init_def start_def startAutoRefresh_def setupStorageListener_def
          initializeBroadcastChannel_def)
  have f: "members (registry s) ''*'' = [5]" "calls (registry s) = []" "console s = []"
    "dispatched s = []" "reads s = 1"
    by (simp_all add: s_def run_defs start_def startAutoRefresh_def setupStorageListener_def
          initializeBroadcastChannel_def)
  have q: "\<forall>cb \<in> set (members (registry s) ''*''). no_actions cb = []"
    by (simp add: no_actions_def)
  have r1: "run no_actions steady_clock
        ([OpStart ChannelOk, OpSubscribe ''*'' 5] @ [OpStart ChannelOk]) (init steady_clock) =
        Some (start ChannelOk s)"
    by (simp only: run_snoc r option.case step.simps)
  have r2: "run no_actions steady_clock
        (([OpStart ChannelOk, OpSubscribe ''*'' 5] @ [OpStart ChannelOk]) @ [OpTick True])
        (init steady_clock) = step no_actions steady_clock (OpTick True) (start ChannelOk s)"
    by (subst run_snoc) (simp only: r1 option.case)
  from start_twice [OF r st, of ChannelOk True] q f st
  show ?thesis
    by (simp only: r r1 r2) (auto simp: steady_clock_def)
qed

lemma broadcast_started_keyed_silent:
  assumes "lifecycle_ok s" and "isStarted s" and "k \<noteq> []"
    and "\<forall>cb \<in> set (members (registry s) k) \<union> set (members (registry s) ''*''). P cb = []"
  shows "\<exists>s'. broadcast P clk postOk StorageUpdate (Some k) s = Some s' \<and>
           calls (registry s') =
             calls (registry s) @ members (registry s) k @
               (if k = ''*'' then [] else members (registry s) ''*'')"
proof -
  have "notifyListeners P k (registry s) =
          Some (Normal ((registry s)\<lparr>calls := calls (registry s) @ members (registry s) k @
               (if k = ''*'' then [] else members (registry s) ''*'')\<rparr>))"
    using notifyListeners_silent [of "registry s" k P] assms(4) by simp
  then show ?thesis using assms(3)
    by (simp add: broadcast_started [OF assms(1,2)] handleSyncMessage_def Let_def
          on_registry_def host_call_def updateSyncTime_def outgoing_fields)
qed

lemma lifecycle_ok_registry: "lifecycle_ok (s\<lparr>registry := r\<rparr>) = lifecycle_ok s"
  by (simp add: lifecycle_ok_def)

text \<open>
  Claim C5. On a started transport that was reached from a new one, \<open>stop\<close> clears the
  interval, the channel, both listeners and the \<open>listeners\<close> map, on the fields and on
  the host, and resets the flag. Starting again, subscribing a callback and notifying
  its key then invokes that callback once and no callback of the earlier session. On a
  stopped transport \<open>stop\<close> returns the state as it is.
\<close>

theorem stop_reverses_start:
  assumes "run P clk xs (init clk) = Some s"
  shows "(isStarted s \<longrightarrow>
            stop s = s\<lparr>refreshInterval := None, timers := [], channel := None,
                       openChannels := [], storageListener := None, windowStorage := [],
                       customEventListener := None, windowCustom := [],
                       registry := (registry s)\<lparr>listeners := Map.empty\<rparr>,
                       isStarted := False\<rparr> \<and>
            (\<forall>env k cb postOk. k \<noteq> [] \<and> P cb = [] \<longrightarrow>
               (\<exists>s'. run P clk [OpStart env, OpSubscribe k cb, OpNotifyUpdate postOk k] (stop s)
                       = Some s' \<and>
                     calls (registry s') = calls (registry s) @ [cb]))) \<and>
         (\<not> isStarted s \<longrightarrow> stop s = s)"
proof -
  from assms have lc: "lifecycle_ok s" by (rule run_init_lifecycle)
  have off: "stop s = s" if "\<not> isStarted s"
    using that by (simp add: stop_def destroy_def)
  have on: "stop s = s\<lparr>refreshInterval := None, timers := [], channel := None,
                       openChannels := [], storageListener := None, windowStorage := [],
                       customEventListener := None, windowCustom := [],
                       registry := (registry s)\<lparr>listeners := Map.empty\<rparr>,
                       isStarted := False\<rparr>" if "isStarted s"
    using that lc
    by (auto simp: stop_def destroy_def Let_def lifecycle_ok_def opt_list_def
             split: option.splits)
  have again: "\<exists>s'. run P clk [OpStart env, OpSubscribe k cb, OpNotifyUpdate postOk k] (stop s)
                       = Some s' \<and> calls (registry s') = calls (registry s) @ [cb]"
    if st: "isStarted s" and k: "k \<noteq> []" and p: "P cb = []" for env k cb postOk
  proof -
    let ?s1 = "start env (stop s)"
    let ?s2 = "?s1\<lparr>registry := subscribe k cb (registry ?s1)\<rparr>"
    have n: "\<not> isStarted (stop s)" by (simp add: on [OF st])
    have "lifecycle_ok (stop s)" using steady_stop [of clk s] lc by (simp add: steady_def)
    then have "lifecycle_ok ?s1" using steady_start [of clk "stop s" env] by (simp add: steady_def)
    then have lc2: "lifecycle_ok ?s2" by (simp add: lifecycle_ok_registry)
    have st2: "isStarted ?s2"
      using n by (simp add: start_def startAutoRefresh_def setupStorageListener_def
                    initializeBroadcastChannel_def split: channel_env.splits)
    have reg1: "registry ?s1 = (registry s)\<lparr>listeners := Map.empty\<rparr>"
      by (simp add: on [OF st] start_def startAutoRefresh_def setupStorageListener_def
            initializeBroadcastChannel_def split: channel_env.splits)
    have m: "members (subscribe k cb (registry ?s1)) k = [cb]"
      "members (subscribe k cb (registry ?s1)) ''*'' = (if k = ''*'' then [cb] else [])"
      "calls (subscribe k cb (registry ?s1)) = calls (registry s)"
      by (simp_all add: reg1 subscribe_def members_def sadd_def)
    have q: "\<forall>c \<in> set (members (registry ?s2) k) \<union> set (members (registry ?s2) ''*''). P c = []"
      by (simp add: m p)
    from broadcast_started_keyed_silent [OF lc2 st2 k q, of clk postOk]
    obtain s' where "broadcast P clk postOk StorageUpdate (Some k) ?s2 = Some s'"
      and "calls (registry s') = calls (registry s) @ [cb]"
      by (auto simp: m)
    then show ?thesis
      by (simp add: notifyUpdate_def)
  qed
  from off on again show ?thesis by blast
qed


theorem stop_reverses_start_witness:
  "map_option (\<lambda>s. (isStarted s, members (registry s) ''teams''))
     (run no_actions steady_clock [OpStart ChannelOk, OpSubscribe ''teams'' 1] (init steady_clock)) =
     Some (True, [1]) \<and>
   map_option (\<lambda>s. (isStarted s, timers s, openChannels s, windowStorage s, windowCustom s,
                     members (registry s) ''teams''))
     (run no_actions steady_clock
        ([OpStart ChannelOk, OpSubscribe ''teams'' 1] @ [OpStop]) (init steady_clock)) =
     Some (False, [], [], [], [], []) \<and>
   map_option (\<lambda>s. calls (registry s))
     (run no_actions steady_clock
        (([OpStart ChannelOk, OpSubscribe ''teams'' 1] @ [OpStop]) @
         [OpStart ChannelOk, OpSubscribe ''teams'' 2, OpNotifyUpdate True ''teams''])
        (init steady_clock)) =
     Some [2] \<and>
   \<not> isStarted (init steady_clock) \<and> stop (init steady_clock) = init steady_clock"
proof -
  define s where "s = the (run no_actions steady_clock
        [OpStart ChannelOk, OpSubscribe ''teams'' 1] (init steady_clock))"
  have r: "run no_actions steady_clock
        [OpStart ChannelOk, OpSubscribe ''teams'' 1] (init steady_clock) = Some s"
    by (simp add: s_def)
  have st: "isStarted s"
    by (simp add: s_def init_def start_def startAutoRefresh_def setupStorageListener_def
          initializeBroadcastChannel_def)
  have f: "members (registry s) ''teams'' = [1]" "calls (registry s) = []"
    by (simp_all add: s_def run_defs start_def startAutoRefresh_def setupStorageListener_def
          initializeBroadcastChannel_def)
  have r0: "run no_actions steady_clock [] (init steady_clock) = Some (init steady_clock)"
    by simp
  have n0: "\<not> isStarted (init steady_clock)" by (simp add: init_def)
  have r1: "run no_actions steady_clock
        ([OpStart ChannelOk, OpSubscribe ''teams'' 1] @ [OpStop]) (init steady_clock) =
        Some (stop s)"
    by (simp only: run_snoc r option.case step.simps)
  have r2: "run no_actions steady_clock
        (([OpStart ChannelOk, OpSubscribe ''teams'' 1] @ [OpStop]) @
         [OpStart ChannelOk, OpSubscribe ''teams'' 2, OpNotifyUpdate True ''teams''])
        (init steady_clock) =
        run no_actions steady_clock
          [OpStart ChannelOk, OpSubscribe ''teams'' 2, OpNotifyUpdate True ''teams''] (stop s)"
    by (subst run_append) (simp only: r1 option.case)
  have p: "''teams'' \<noteq> [] \<and> no_actions 2 = []" by (simp add: no_actions_def)
  from stop_reverses_start [OF r] st p f have
    1: "stop s = s\<lparr>refreshInterval := None, timers := [], channel := None,
                       openChannels := [], storageListener := None, windowStorage := [],
                       customEventListener := None, windowCustom := [],
                       registry := (registry s)\<lparr>listeners := Map.empty\<rparr>,
                       isStarted := False\<rparr>"
    and 2: "\<exists>s'. run no_actions steady_clock
          [OpStart ChannelOk, OpSubscribe ''teams'' 2, OpNotifyUpdate True ''teams''] (stop s)
            = Some s' \<and> calls (registry s') = [2]"
    by auto
  from stop_reverses_start [OF r0] n0 have 3: "stop (init steady_clock) = init steady_clock"
    by simp
  have a: "map_option (\<lambda>s. (isStarted s, timers s, openChannels s, windowStorage s, windowCustom s,
                     members (registry s) ''teams'')) (Some (stop s)) =
     Some (False, [], [], [], [], [])"
    by (simp add: 1 members_def)
  from 2 st f a n0 3 show ?thesis
    by (simp only: r r1 r2) auto
qed


section \<open>The claims about dispatch\<close>

lemma handleSyncMessage_silent:
  assumes "\<forall>cb \<in> set (members (registry s) k) \<union> set (members (registry s) ''*''). P cb = []"
  shows "on_registry (notifyListeners P k) (updateSyncTime clk s) =
           Some (Normal ((updateSyncTime clk s)\<lparr>registry := (registry s)
                   \<lparr>calls := calls (registry s) @ members (registry s) k @
                              (if k = ''*'' then [] else members (registry s) ''*'')\<rparr>\<rparr>))"
proof -
  have "notifyListeners P k (registry s) =
          Some (Normal ((registry s)\<lparr>calls := calls (registry s) @ members (registry s) k @
               (if k = ''*'' then [] else members (registry s) ''*'')\<rparr>))"
    using notifyListeners_silent [of "registry s" k P] assms by simp
  then show ?thesis
    by (simp add: on_registry_def updateSyncTime_def)
qed

text \<open>
  Claim C1 (as amended). In a state reached from a new transport, when the callbacks
  that a message invokes return without throwing and without a call to the transport:
  a \<open>storage-update\<close> or \<open>force-sync\<close> message with a non-empty key invokes the
  callbacks of the key's Set in insertion order and then, unless the key is the
  wildcard, those of the wildcard's Set; \<open>data-refresh\<close>, and \<open>force-sync\<close> with no key
  or the empty key, invoke the wildcard's callbacks. A \<open>storage-update\<close> with no key
  or the empty key invokes none, whatever the callbacks would do. No Set lists a
  callback twice, so each registration is invoked once. In every case the handling
  returns without a throw.
\<close>

theorem dispatch_rule:
  assumes "run P clk xs (init clk) = Some s"
  shows
    "(k \<noteq> [] \<and> (t = StorageUpdate \<or> t = ForceSync) \<and>
      (\<forall>cb \<in> set (members (registry s) k) \<union> set (members (registry s) ''*''). P cb = []) \<longrightarrow>
        handleSyncMessage P clk \<lparr>msg_type = t, key = Some k, timestamp = ts\<rparr> s =
          Some (Normal ((updateSyncTime clk s)\<lparr>registry := (registry s)
                  \<lparr>calls := calls (registry s) @ members (registry s) k @
                             (if k = ''*'' then [] else members (registry s) ''*'')\<rparr>\<rparr>))) \<and>
     ((\<forall>cb \<in> set (members (registry s) ''*''). P cb = []) \<longrightarrow>
        (ko = None \<or> ko = Some [] \<longrightarrow>
           handleSyncMessage P clk \<lparr>msg_type = ForceSync, key = ko, timestamp = ts\<rparr> s =
             Some (Normal ((updateSyncTime clk s)\<lparr>registry := (registry s)
                     \<lparr>calls := calls (registry s) @ members (registry s) ''*''\<rparr>\<rparr>))) \<and>
        handleSyncMessage P clk \<lparr>msg_type = DataRefresh, key = kr, timestamp = ts\<rparr> s =
          Some (Normal ((updateSyncTime clk s)\<lparr>registry := (registry s)
                  \<lparr>calls := calls (registry s) @ members (registry s) ''*''\<rparr>\<rparr>))) \<and>
     (ko = None \<or> ko = Some [] \<longrightarrow>
        handleSyncMessage P clk \<lparr>msg_type = StorageUpdate, key = ko, timestamp = ts\<rparr> s =
          Some (Normal (updateSyncTime clk s))) \<and>
     distinct (members (registry s) k) \<and> distinct (members (registry s) ''*'')"
proof -
  from assms(1) have "wf_registry (registry s)" by (rule run_init_wf)
  then have d: "distinct (members (registry s) k')" for k'
    by (simp add: wf_registry_def members_def split: option.splits)
  have w: "on_registry (notifyListeners P ''*'') (updateSyncTime clk s) =
           Some (Normal ((updateSyncTime clk s)\<lparr>registry := (registry s)
                   \<lparr>calls := calls (registry s) @ members (registry s) ''*''\<rparr>\<rparr>))"
    if "\<forall>cb \<in> set (members (registry s) ''*''). P cb = []"
    using handleSyncMessage_silent [of s "''*''" P clk] that by simp
  have keyed: "handleSyncMessage P clk \<lparr>msg_type = t, key = Some k, timestamp = ts\<rparr> s =
          Some (Normal ((updateSyncTime clk s)\<lparr>registry := (registry s)
                  \<lparr>calls := calls (registry s) @ members (registry s) k @
                             (if k = ''*'' then [] else members (registry s) ''*'')\<rparr>\<rparr>))"
    if "k \<noteq> []" "t = StorageUpdate \<or> t = ForceSync"
      "\<forall>cb \<in> set (members (registry s) k) \<union> set (members (registry s) ''*''). P cb = []"
    using handleSyncMessage_silent [OF that(3), of clk] that(1,2)
    by (auto simp: handleSyncMessage_def Let_def)
  have force: "handleSyncMessage P clk \<lparr>msg_type = ForceSync, key = ko, timestamp = ts\<rparr> s =
          Some (Normal ((updateSyncTime clk s)\<lparr>registry := (registry s)
                  \<lparr>calls := calls (registry s) @ members (registry s) ''*''\<rparr>\<rparr>))"
    if "\<forall>cb \<in> set (members (registry s) ''*''). P cb = []" "ko = None \<or> ko = Some []"
    using w [OF that(1)] that(2) by (auto simp: handleSyncMessage_def Let_def)
  have refresh: "handleSyncMessage P clk \<lparr>msg_type = DataRefresh, key = kr, timestamp = ts\<rparr> s =
       Some (Normal ((updateSyncTime clk s)\<lparr>registry := (registry s)
               \<lparr>calls := calls (registry s) @ members (registry s) ''*''\<rparr>\<rparr>))"
    if "\<forall>cb \<in> set (members (registry s) ''*''). P cb = []"
    using w [OF that] by (simp add: handleSyncMessage_def Let_def)
  have unkeyed: "handleSyncMessage P clk \<lparr>msg_type = StorageUpdate, key = ko, timestamp = ts\<rparr> s =
          Some (Normal (updateSyncTime clk s))"
    if "ko = None \<or> ko = Some []"
    using that by (auto simp: handleSyncMessage_def Let_def)
  from keyed force refresh unkeyed d show ?thesis by blast
qed

theorem dispatch_rule_witness:
  "map_option (\<lambda>s. (members (registry s) ''teams'', members (registry s) ''*'', calls (registry s)))
     (run no_actions steady_clock [OpSubscribe ''teams'' 1, OpSubscribe ''*'' 2]
        (init steady_clock)) = Some ([1], [2], []) \<and>
   map_option (\<lambda>c. (c = Normal (state_of c), calls (registry (state_of c))))
    (handleSyncMessage no_actions steady_clock
      \<lparr>msg_type = StorageUpdate, key = Some ''teams'', timestamp = 5\<rparr>
      (the (run no_actions steady_clock [OpSubscribe ''teams'' 1, OpSubscribe ''*'' 2]
        (init steady_clock)))) = Some (True, [1, 2]) \<and>
   map_option (\<lambda>c. (c = Normal (state_of c), calls (registry (state_of c))))
    (handleSyncMessage no_actions steady_clock
      \<lparr>msg_type = ForceSync, key = None, timestamp = 5\<rparr>
      (the (run no_actions steady_clock [OpSubscribe ''teams'' 1, OpSubscribe ''*'' 2]
        (init steady_clock)))) = Some (True, [2]) \<and>
   map_option (\<lambda>c. (c = Normal (state_of c), calls (registry (state_of c))))
    (handleSyncMessage no_actions steady_clock
      \<lparr>msg_type = StorageUpdate, key = None, timestamp = 5\<rparr>
      (the (run no_actions steady_clock [OpSubscribe ''teams'' 1, OpSubscribe ''*'' 2]
        (init steady_clock)))) = Some (True, []) \<and>
   map_option (\<lambda>c. (c = Normal (state_of c), calls (registry (state_of c))))
    (handleSyncMessage no_actions steady_clock
      \<lparr>msg_type = DataRefresh, key = None, timestamp = 5\<rparr>
      (the (run no_actions steady_clock [OpSubscribe ''teams'' 1, OpSubscribe ''*'' 2]
        (init steady_clock)))) = Some (True, [2])"
proof -
  define s where "s = the (run no_actions steady_clock
        [OpSubscribe ''teams'' 1, OpSubscribe ''*'' 2] (init steady_clock))"
  have r: "run no_actions steady_clock
        [OpSubscribe ''teams'' 1, OpSubscribe ''*'' 2] (init steady_clock) = Some s"
    by (simp add: s_def)
  have f: "members (registry s) ''teams'' = [1]" "members (registry s) ''*'' = [2]"
    "calls (registry s) = []"
    by (simp_all add: s_def run_defs)
  have q: "\<forall>cb \<in> set (members (registry s) ''*''). no_actions cb = []"
    "\<forall>cb \<in> set (members (registry s) ''teams'') \<union> set (members (registry s) ''*'').
       no_actions cb = []"
    by (simp_all add: no_actions_def)
  from dispatch_rule [OF r, of "''teams''" StorageUpdate 5 None None] q f
  show ?thesis
    by (simp only: r s_def [symmetric]) (auto simp: updateSyncTime_def)
qed

text \<open>
  The claim as stated fails at these inputs, in this order. Callback 7, registered
  under a key and under the wildcard, is invoked twice by one message for that key.
  With the empty string as the key of the message, \<open>storage-update\<close> invokes neither
  callback 3 of the empty key nor callback 4 of the wildcard, and \<open>force-sync\<close>
  invokes 4 and not 3. A \<open>storage-update\<close> without a key invokes neither. Callback 2
  of the key is not invoked when callback 1 before it revokes it. And when callback 1
  throws, neither callback 2 after it nor callback 3 of the wildcard is invoked.
\<close>

theorem dispatch_rule_counterexample:
  "invoked_by (run no_actions steady_clock
      [OpStart ChannelOk, OpSubscribe ''teams'' 7, OpSubscribe ''*'' 7,
       OpChannelMessage \<lparr>msg_type = StorageUpdate, key = Some ''teams'', timestamp = 0\<rparr>]
      (init steady_clock))
     = Some [7, 7] \<and>
   invoked_by (run no_actions steady_clock
      [OpStart ChannelOk, OpSubscribe [] 3, OpSubscribe ''*'' 4,
       OpChannelMessage \<lparr>msg_type = StorageUpdate, key = Some [], timestamp = 0\<rparr>]
      (init steady_clock))
     = Some [] \<and>
   invoked_by (run no_actions steady_clock
      [OpStart ChannelOk, OpSubscribe [] 3, OpSubscribe ''*'' 4,
       OpChannelMessage \<lparr>msg_type = ForceSync, key = Some [], timestamp = 0\<rparr>]
      (init steady_clock))
     = Some [4] \<and>
   invoked_by (run no_actions steady_clock
      [OpStart ChannelOk, OpSubscribe [] 3, OpSubscribe ''*'' 4,
       OpChannelMessage \<lparr>msg_type = StorageUpdate, key = None, timestamp = 0\<rparr>]
      (init steady_clock))
     = Some [] \<and>
   invoked_by (run revoker steady_clock
      [OpStart ChannelOk, OpSubscribe ''teams'' 1, OpSubscribe ''teams'' 2,
       OpChannelMessage \<lparr>msg_type = StorageUpdate, key = Some ''teams'', timestamp = 0\<rparr>]
      (init steady_clock))
     = Some [1] \<and>
   invoked_by (run thrower steady_clock
      [OpStart ChannelOk, OpSubscribe ''teams'' 1, OpSubscribe ''teams'' 2, OpSubscribe ''*'' 3,
       OpChannelMessage \<lparr>msg_type = StorageUpdate, key = Some ''teams'', timestamp = 0\<rparr>]
      (init steady_clock))
     = Some [1]"
  by (simp add: invoked_by_def handleSyncMessage_def Let_def on_registry_def notifyListeners_def
        updateSyncTime_def subscribe_def revoke_def sadd_def sdelete_def ssize_def
        empty_registry_def init_def no_actions_def revoker_def thrower_def host_call_def
        invoke_def forEach.simps start_def startAutoRefresh_def setupStorageListener_def
        initializeBroadcastChannel_def)

text \<open>
  Claim C2 (as amended). \<open>forEach\<close> walks the Set itself, not a copy. In a state reached
  from a new transport, a pass over the Set of key \<open>k\<close> returns without a throw and
  invokes exactly the callbacks the Set held when the pass began, in order, provided
  every callback it invokes does nothing but subscribe and revoke, none subscribes
  under \<open>k\<close>, and none revokes a callback of \<open>k\<close> that the pass has not visited yet.
  Callbacks may revoke themselves or callbacks already visited, and may subscribe and
  revoke under other keys.
\<close>

theorem pass_without_interference:
  assumes "run P clk xs (init clk) = Some s"
    and "listeners (registry s) k = Some a"
    and "undisturbed P k (heap (registry s) a)"
  shows "\<exists>r. forEach P a 0 (registry s) = Some (Normal r) \<and>
             calls r = calls (registry s) @ members (registry s) k"
proof -
  from assms(1) have wf: "wf_registry (registry s)" by (rule run_init_wf)
  with assms(2) have "owned a k (registry s)"
    by (auto simp: owned_def wf_registry_def)
  from forEach_undisturbed [OF this, of P 0] assms(2,3) show ?thesis
    by (auto simp: members_def)
qed

theorem pass_without_interference_witness:
  "map_option (\<lambda>s. (listeners (registry s) ''teams'',
                     undisturbed leaver ''teams'' (heap (registry s) 0),
                     members (registry s) ''teams'', calls (registry s)))
     (run leaver steady_clock [OpSubscribe ''teams'' 1, OpSubscribe ''teams'' 2]
        (init steady_clock)) = Some (Some 0, True, [1, 2], []) \<and>
   map_option (\<lambda>c. (c = Normal (state_of c), calls (state_of c)))
     (forEach leaver 0 0 (subscribe ''teams'' 2 (subscribe ''teams'' 1 empty_registry))) =
     Some (True, [1, 2])"
proof -
  define s where "s = the (run leaver steady_clock
        [OpSubscribe ''teams'' 1, OpSubscribe ''teams'' 2] (init steady_clock))"
  have r: "run leaver steady_clock
        [OpSubscribe ''teams'' 1, OpSubscribe ''teams'' 2] (init steady_clock) = Some s"
    by (simp add: s_def)
  have g: "registry s = subscribe ''teams'' 2 (subscribe ''teams'' 1 empty_registry)"
    by (simp add: s_def init_def)
  have l: "listeners (registry s) ''teams'' = Some 0"
    by (simp add: g run_defs)
  have u: "undisturbed leaver ''teams'' (heap (registry s) 0)"
    by (simp add: g run_defs leaver_def)
  have f: "members (registry s) ''teams'' = [1, 2]" "calls (registry s) = []"
    by (simp_all add: g run_defs)
  from pass_without_interference [OF r l u] l u f
  have "map_option (\<lambda>s. (listeners (registry s) ''teams'',
                     undisturbed leaver ''teams'' (heap (registry s) 0),
                     members (registry s) ''teams'', calls (registry s))) (Some s)
          = Some (Some 0, True, [1, 2], []) \<and>
        map_option (\<lambda>c. (c = Normal (state_of c), calls (state_of c)))
          (forEach leaver 0 0 (registry s)) = Some (True, [1, 2])"
    by auto
  then show ?thesis by (simp only: r g)
qed

text \<open>
  The claim as stated fails at these inputs. With callbacks 1 and 2 subscribed under
  one key, a \<open>notifyUpdate\<close> of the key invokes only 1 when 1 revokes 2, invokes 1, 2
  and 3 when 1 subscribes 3 under the key, and invokes only 1 when 1 throws; a pass
  over a copy of the Set taken before would invoke 1 and 2.
\<close>

theorem snapshot_counterexample:
  "invoked_by (run revoker steady_clock
      [OpStart ChannelOk, OpSubscribe ''teams'' 1, OpSubscribe ''teams'' 2,
       OpNotifyUpdate True ''teams''] (init steady_clock)) = Some [1] \<and>
   invoked_by (run joiner steady_clock
      [OpStart ChannelOk, OpSubscribe ''teams'' 1, OpSubscribe ''teams'' 2,
       OpNotifyUpdate True ''teams''] (init steady_clock)) = Some [1, 2, 3] \<and>
   invoked_by (run thrower steady_clock
      [OpStart ChannelOk, OpSubscribe ''teams'' 1, OpSubscribe ''teams'' 2,
       OpNotifyUpdate True ''teams''] (init steady_clock)) = Some [1]"
  by (simp add: invoked_by_def handleSyncMessage_def Let_def on_registry_def notifyListeners_def
        updateSyncTime_def subscribe_def revoke_def sadd_def sdelete_def ssize_def
        empty_registry_def init_def revoker_def joiner_def thrower_def host_call_def
        invoke_def forEach.simps start_def startAutoRefresh_def setupStorageListener_def
        initializeBroadcastChannel_def notifyUpdate_def broadcast_def
        customEventListenerBody_def detail_of_def)


lemma hook_run_append:
  "hook_run (es @ fs) s = (case hook_run es s of Inl x \<Rightarrow> Inl x | Inr s1 \<Rightarrow> hook_run fs s1)"
  by (induction es arbitrary: s) (auto split: sum.splits)

section \<open>The claims about the accessor\<close>


lemmas hook_defs = useSyncedData_init_def run_effect_def cleanup_def refetch_def
  doFetch_call_def doFetch_settle_def try_part_def catch_part_def finally_part_def Let_def


lemma unmounted_step:
  assumes "i < length (closures s) \<longrightarrow> \<not> isMounted (closures s ! i)" and "of_closure i e"
  shows "\<exists>s'. hook_step e s = Inr s' \<and> data s' = data s \<and> loading s' = loading s \<and>
              errors s' = errors s \<and> trigger s' = trigger s \<and> closures s' = closures s"
proof (cases e)
  case (Notify j)
  with assms show ?thesis by (simp add: doFetch_call_def)
next
  case (Settle j x)
  with assms show ?thesis
    by (cases x)
       (simp_all add: doFetch_settle_def try_part_def catch_part_def finally_part_def Let_def)
qed (use assms in simp_all)

lemma unmounted_run:
  "i < length (closures s) \<longrightarrow> \<not> isMounted (closures s ! i) \<Longrightarrow> \<forall>e \<in> set es. of_closure i e
     \<Longrightarrow> \<exists>s'. hook_run es s = Inr s' \<and> data s' = data s \<and> loading s' = loading s \<and>
              errors s' = errors s \<and> trigger s' = trigger s \<and> closures s' = closures s"
proof (induction es arbitrary: s)
  case Nil
  then show ?case by simp
next
  case (Cons e es)
  from Cons.prems have "of_closure i e" by simp
  from unmounted_step [OF Cons.prems(1) this] obtain s1 where
    1: "hook_step e s = Inr s1" and
    2: "data s1 = data s" "loading s1 = loading s" "errors s1 = errors s"
       "trigger s1 = trigger s" "closures s1 = closures s"
    by blast
  from Cons.prems 2 have "i < length (closures s1) \<longrightarrow> \<not> isMounted (closures s1 ! i)"
    "\<forall>e \<in> set es. of_closure i e" by simp_all
  from Cons.IH [OF this] 1 2 show ?case by auto
qed

text \<open>When no closure is mounted, no call and no settling writes, of whatever closure.\<close>

lemma all_unmounted_step:
  assumes "list_all (\<lambda>c. \<not> isMounted c) (closures s)" and "fetch_event e"
  shows "\<exists>s'. hook_step e s = Inr s' \<and> data s' = data s \<and> loading s' = loading s \<and>
              errors s' = errors s \<and> trigger s' = trigger s \<and> closures s' = closures s"
proof -
  from assms(2) obtain i where i: "of_closure i e" by (cases e) auto
  from assms(1) have "i < length (closures s) \<longrightarrow> \<not> isMounted (closures s ! i)"
    by (simp add: list_all_length)
  from unmounted_step [OF this i] show ?thesis .
qed

lemma all_unmounted_run:
  "list_all (\<lambda>c. \<not> isMounted c) (closures s) \<Longrightarrow> \<forall>e \<in> set es. fetch_event e
     \<Longrightarrow> \<exists>s'. hook_run es s = Inr s' \<and> data s' = data s \<and> loading s' = loading s \<and>
              errors s' = errors s \<and> trigger s' = trigger s \<and> closures s' = closures s"
proof (induction es arbitrary: s)
  case Nil
  then show ?case by simp
next
  case (Cons e es)
  from Cons.prems have "fetch_event e" by simp
  from all_unmounted_step [OF Cons.prems(1) this] obtain s1 where
    1: "hook_step e s = Inr s1" and
    2: "data s1 = data s" "loading s1 = loading s" "errors s1 = errors s"
       "trigger s1 = trigger s" "closures s1 = closures s"
    by blast
  from Cons.prems 2 have "list_all (\<lambda>c. \<not> isMounted c) (closures s1)"
    "\<forall>e \<in> set es. fetch_event e" by simp_all
  from Cons.IH [OF this] 1 2 show ?case by auto
qed

text \<open>The cleanup deactivates the newest closure, which is the only one that can be active.\<close>

lemma cleanup_all_unmounted:
  assumes "superseded s"
  shows "list_all (\<lambda>c. \<not> isMounted c) (closures (cleanup s))"
proof (cases "closures s = []")
  case True
  then show ?thesis by (simp add: cleanup_def)
next
  case False
  then have "closures s = butlast (closures s) @ [last (closures s)]" by simp
  then have "(closures s)[length (closures s) - 1 := (last (closures s))\<lparr>isMounted := False\<rparr>] =
             butlast (closures s) @ [(last (closures s))\<lparr>isMounted := False\<rparr>]"
    by (metis butlast_list_update length_butlast list_update_length snoc_eq_iff_butlast
          append_butlast_last_id list_update_nonempty last_list_update)
  with False assms show ?thesis
    by (simp add: cleanup_def superseded_def)
qed

lemma cleanup_fields:
  "data (cleanup s) = data s" "loading (cleanup s) = loading s" "errors (cleanup s) = errors s"
  "trigger (cleanup s) = trigger s" "length (closures (cleanup s)) = length (closures s)"
  by (simp_all add: cleanup_def)

lemma superseded_cleanup: "superseded s \<Longrightarrow> superseded (cleanup s)"
  by (simp add: cleanup_def superseded_def butlast_list_update)

lemma superseded_run_effect:
  assumes "list_all (\<lambda>c. \<not> isMounted c) (closures s)"
  shows "superseded (run_effect s)"
  using assms by (simp add: run_effect_def doFetch_call_def superseded_def Let_def)

lemma superseded_step:
  assumes "superseded s" and "hook_step e s = Inr s'"
  shows "superseded s'"
proof (cases e)
  case Mount
  with assms superseded_run_effect [OF cleanup_all_unmounted [OF assms(1)]] show ?thesis by auto
next
  case DepsChange
  with assms superseded_run_effect [OF cleanup_all_unmounted [OF assms(1)]] show ?thesis by auto
next
  case Refetch
  let ?s = "s\<lparr>trigger := trigger s + 1\<rparr>"
  from assms(1) have "superseded ?s" by (simp add: superseded_def)
  from superseded_run_effect [OF cleanup_all_unmounted [OF this]] Refetch assms(2)
  show ?thesis by (auto simp: refetch_def)
next
  case (Notify j)
  with assms show ?thesis by (auto simp: superseded_def doFetch_call_def Let_def)
next
  case (Settle j x)
  with assms show ?thesis
    by (cases x)
       (auto simp: superseded_def doFetch_settle_def try_part_def catch_part_def
          finally_part_def Let_def split: if_splits)
next
  case Unmount
  with assms show ?thesis by (auto simp: superseded_cleanup)
qed

lemma superseded_run:
  "hook_run es s = Inr s' \<Longrightarrow> superseded s \<Longrightarrow> superseded s'"
proof (induction es arbitrary: s)
  case Nil
  then show ?case by simp
next
  case (Cons e es)
  from Cons.prems(1) obtain s1 where 1: "hook_step e s = Inr s1" and 2: "hook_run es s1 = Inr s'"
    by (auto split: sum.splits)
  from superseded_step [OF Cons.prems(2) 1] Cons.IH [OF 2] show ?case by simp
qed

lemma superseded_init: "superseded useSyncedData_init"
  by (simp add: superseded_def useSyncedData_init_def)

text \<open>
  Claim C9. In every state that a hook reaches, the unmount deactivates the closure
  that can still be active, whatever fetches are in flight: after it, every result and
  every rejection of a fetch, and every call of a \<^verbatim>\<open>doFetch\<close>, of whatever closure,
  returns without a throw and leaves \<open>data\<close>, \<open>loading\<close> and the error log as they
  were. The same holds, while the hook is mounted, of the fetches and calls of every
  closure that a later run of the effect has replaced.
\<close>

theorem deactivated_closure_writes_nothing:
  assumes "hook_run es useSyncedData_init = Inr s"
  shows "(\<forall>fs. (\<forall>e \<in> set fs. fetch_event e) \<longrightarrow>
            (\<exists>s'. hook_run (Unmount # fs) s = Inr s' \<and> data s' = data s \<and>
                  loading s' = loading s \<and> errors s' = errors s)) \<and>
         (\<forall>i fs. Suc i < length (closures s) \<and> (\<forall>e \<in> set fs. of_closure i e) \<longrightarrow>
            (\<exists>s'. hook_run fs s = Inr s' \<and> data s' = data s \<and>
                  loading s' = loading s \<and> errors s' = errors s))"
proof -
  from assms have sup: "superseded s" using superseded_init by (rule superseded_run)
  have 1: "\<exists>s'. hook_run (Unmount # fs) s = Inr s' \<and> data s' = data s \<and>
                  loading s' = loading s \<and> errors s' = errors s"
    if "\<forall>e \<in> set fs. fetch_event e" for fs
    using all_unmounted_run [OF cleanup_all_unmounted [OF sup] that]
    by (auto simp: cleanup_fields)
  have 2: "\<exists>s'. hook_run fs s = Inr s' \<and> data s' = data s \<and>
                  loading s' = loading s \<and> errors s' = errors s"
    if "Suc i < length (closures s)" "\<forall>e \<in> set fs. of_closure i e" for i fs
  proof -
    from that(1) have "i < length (butlast (closures s))" by simp
    with sup have "\<not> isMounted (butlast (closures s) ! i)"
      by (simp add: superseded_def list_all_length)
    with that(1) have "i < length (closures s) \<longrightarrow> \<not> isMounted (closures s ! i)"
      by (simp add: nth_butlast)
    from unmounted_run [OF this that(2)] show ?thesis by blast
  qed
  from 1 2 show ?thesis by blast
qed

theorem deactivated_closure_writes_nothing_witness:
  "hook_run [Mount] useSyncedData_init =
     Inr \<lparr>data = None :: nat option, loading = True, trigger = 0,
          closures = [\<lparr>isMounted = True, closure_data = None\<rparr>], inflight = [0],
          errors = []\<rparr> \<and>
   hook_run ([Mount] @ Unmount #
             [Settle 0 (Resolved (Some (7::nat))), Notify 0, Settle 0 (Rejected ''late'')])
     useSyncedData_init =
     Inr \<lparr>data = None, loading = True, trigger = 0,
          closures = [\<lparr>isMounted = False, closure_data = None\<rparr>], inflight = [],
          errors = []\<rparr> \<and>
   hook_run ([Mount, Refetch] @ [Settle 0 (Resolved (Some (7::nat)))]) useSyncedData_init =
     Inr \<lparr>data = None, loading = True, trigger = 1,
          closures = [\<lparr>isMounted = False, closure_data = None\<rparr>,
                      \<lparr>isMounted = True, closure_data = None\<rparr>], inflight = [1],
          errors = []\<rparr>"
proof -
  define s :: "nat synced" where
    "s = \<lparr>data = None, loading = True, trigger = 0,
          closures = [\<lparr>isMounted = True, closure_data = None\<rparr>], inflight = [0],
          errors = []\<rparr>"
  define t :: "nat synced" where
    "t = \<lparr>data = None, loading = True, trigger = 1,
          closures = [\<lparr>isMounted = False, closure_data = None\<rparr>,
                      \<lparr>isMounted = True, closure_data = None\<rparr>], inflight = [0, 1],
          errors = []\<rparr>"
  have r: "hook_run [Mount] useSyncedData_init = Inr s"
    by (simp add: s_def hook_defs)
  have rt: "hook_run [Mount, Refetch] useSyncedData_init = Inr t"
    by (simp add: t_def hook_defs)
  have e: "\<forall>e \<in> set [Settle 0 (Resolved (Some (7::nat))), Notify 0, Settle 0 (Rejected ''late'')].
             fetch_event e" by simp
  have e0: "Suc 0 < length (closures t) \<and>
            (\<forall>e \<in> set [Settle 0 (Resolved (Some (7::nat)))]. of_closure 0 e)"
    by (simp add: t_def)
  from deactivated_closure_writes_nothing [OF r] e obtain s' where
    1: "hook_run (Unmount #
          [Settle 0 (Resolved (Some (7::nat))), Notify 0, Settle 0 (Rejected ''late'')]) s = Inr s'"
    and 2: "data s' = data s" "loading s' = loading s" "errors s' = errors s"
    by blast
  from deactivated_closure_writes_nothing [OF rt] e0 obtain t' where
    3: "hook_run [Settle 0 (Resolved (Some (7::nat)))] t = Inr t'"
    and 4: "data t' = data t" "loading t' = loading t" "errors t' = errors t"
    by blast
  have 5: "hook_run (Unmount #
          [Settle 0 (Resolved (Some (7::nat))), Notify 0, Settle 0 (Rejected ''late'')]) s =
        Inr (s\<lparr>closures := [\<lparr>isMounted = False, closure_data = None\<rparr>], inflight := []\<rparr>)"
    by (simp add: s_def hook_defs)
  have 6: "hook_run [Settle 0 (Resolved (Some (7::nat)))] t = Inr (t\<lparr>inflight := [1]\<rparr>)"
    by (simp add: t_def hook_defs)
  have a1: "hook_run ([Mount] @ Unmount #
             [Settle 0 (Resolved (Some (7::nat))), Notify 0, Settle 0 (Rejected ''late'')])
     useSyncedData_init = hook_run (Unmount #
          [Settle 0 (Resolved (Some (7::nat))), Notify 0, Settle 0 (Rejected ''late'')]) s"
    by (simp only: hook_run_append r sum.case)
  have a2: "hook_run ([Mount, Refetch] @ [Settle 0 (Resolved (Some (7::nat)))])
     useSyncedData_init = hook_run [Settle 0 (Resolved (Some (7::nat)))] t"
    by (simp only: hook_run_append rt sum.case)
  from 1 2 3 4 5 6 show ?thesis
    by (simp only: r a1 a2) (simp add: s_def t_def)
qed


section \<open>The claim about revocation handles\<close>

lemma revoke_absent:
  assumes "wf_registry r" and "cb \<notin> set (members r k)"
  shows "revoke k cb r = r"
proof (cases "listeners r k")
  case None
  then show ?thesis by (simp add: revoke_def)
next
  case (Some a)
  with assms(2) have "Some cb \<notin> set (heap r a)" by (simp add: members_def set_live)
  then have d: "sdelete cb (heap r a) = heap r a" by (rule sdelete_absent)
  from assms(1) Some have "ssize (heap r a) \<noteq> 0" by (simp add: wf_registry_def)
  with Some d show ?thesis by (simp add: revoke_def Let_def)
qed

lemma revoke_removes: "cb \<notin> set (members (revoke k cb r) k)"
  by (auto simp: revoke_def Let_def members_def live_sdelete split: option.splits)

text \<open>
  Claim C7 (as amended). The revocation handle of \<open>subscribe(key, callback)\<close> has no
  failing branch, so no call raises. Calling it twice in a row leaves the registry as
  one call leaves it. After every call the callback is not under the key. And in
  every state reached from a new transport in which the callback is not under the key,
  a call of the handle changes nothing.
\<close>

theorem revoke_idempotent:
  "revoke k cb (revoke k cb r) = revoke k cb r \<and>
   cb \<notin> set (members (revoke k cb r) k) \<and>
   (\<forall>P clk xs s. run P clk xs (init clk) = Some s \<and> cb \<notin> set (members (registry s) k) \<longrightarrow>
      revoke k cb (registry s) = registry s)"
proof -
  have 1: "revoke k cb (revoke k cb r) = revoke k cb r"
  proof (cases "listeners r k")
    case None
    then show ?thesis by (simp add: revoke_def)
  next
    case (Some a)
    show ?thesis
    proof (cases "ssize (sdelete cb (heap r a)) = 0")
      case True
      with Some show ?thesis by (simp add: revoke_def Let_def)
    next
      case False
      with Some show ?thesis by (simp add: revoke_def Let_def sdelete_idem)
    qed
  qed
  have 3: "revoke k cb (registry s) = registry s"
    if "run P clk xs (init clk) = Some s" "cb \<notin> set (members (registry s) k)" for P clk xs s
    using run_init_wf [OF that(1)] that(2) by (rule revoke_absent)
  from 1 revoke_removes 3 show ?thesis by blast
qed

theorem revoke_idempotent_witness:
  "revoke ''teams'' 1 (revoke ''teams'' 1 (subscribe ''teams'' 1 empty_registry)) =
     revoke ''teams'' 1 (subscribe ''teams'' 1 empty_registry) \<and>
   listeners (revoke ''teams'' 1 (subscribe ''teams'' 1 empty_registry)) ''teams'' = None \<and>
   map_option (\<lambda>s. members (registry s) ''teams'')
     (run no_actions steady_clock
        [OpSubscribe ''teams'' 1, OpSubscribe ''teams'' 2, OpRevoke ''teams'' 1]
        (init steady_clock)) = Some [2] \<and>
   map_option (\<lambda>s. members (registry s) ''teams'')
     (run no_actions steady_clock
        ([OpSubscribe ''teams'' 1, OpSubscribe ''teams'' 2, OpRevoke ''teams'' 1] @
         [OpRevoke ''teams'' 1])
        (init steady_clock)) = Some [2]"
proof -
  define s where "s = the (run no_actions steady_clock
        [OpSubscribe ''teams'' 1, OpSubscribe ''teams'' 2, OpRevoke ''teams'' 1]
        (init steady_clock))"
  have r: "run no_actions steady_clock
        [OpSubscribe ''teams'' 1, OpSubscribe ''teams'' 2, OpRevoke ''teams'' 1]
        (init steady_clock) = Some s"
    by (simp add: s_def)
  have m: "members (registry s) ''teams'' = [2]"
    by (simp add: s_def run_defs)
  then have n: "1 \<notin> set (members (registry s) ''teams'')" by simp
  have r1: "run no_actions steady_clock
        ([OpSubscribe ''teams'' 1, OpSubscribe ''teams'' 2, OpRevoke ''teams'' 1] @
         [OpRevoke ''teams'' 1]) (init steady_clock) =
        Some (s\<lparr>registry := revoke ''teams'' 1 (registry s)\<rparr>)"
    by (simp only: run_snoc r option.case step.simps)
  have e: "listeners (revoke ''teams'' 1 (subscribe ''teams'' 1 empty_registry)) ''teams'' = None"
    by (simp add: run_defs)
  from revoke_idempotent [of "''teams''" 1 "subscribe ''teams'' 1 empty_registry"]
    revoke_idempotent [of "''teams''" 1 "registry s"] r n m e
  have "revoke ''teams'' 1 (registry s) = registry s" by blast
  with revoke_idempotent [of "''teams''" 1 "subscribe ''teams'' 1 empty_registry"] m e
  show ?thesis
    by (simp only: r r1) simp
qed

text \<open>
  The claim as stated fails for a later call: the handle holds the key and the
  callback only. Here callback 1 is subscribed, its handle is called, the same
  callback is subscribed under the same key again, and the first handle is called a
  second time: the call removes the new registration.
\<close>

theorem stale_handle_counterexample:
  "registered (run no_actions steady_clock
      [OpSubscribe ''teams'' 1, OpRevoke ''teams'' 1, OpSubscribe ''teams'' 1]
      (init steady_clock)) ''teams'' = Some [1] \<and>
   registered (run no_actions steady_clock
      [OpSubscribe ''teams'' 1, OpRevoke ''teams'' 1, OpSubscribe ''teams'' 1,
       OpRevoke ''teams'' 1]
      (init steady_clock)) ''teams'' = Some []"
  by (simp add: registered_def run_defs)

end
